theory Spec2Isabelle
  imports Main "HOL-Library.Code_Target_Nat"
begin

section \<open>JavaScript values\<close>

text \<open>
  The value of an ESTree \<open>Literal\<close> node is a string, a number, a boolean, \<open>null\<close>, a
  regular expression or a big integer. The code never calculates with a number: it tests
  it for truth and prints it. A number is therefore kept as the text JavaScript prints
  for it (\<open>0\<close>, \<open>0.5\<close>, \<open>1e+21\<close>, \<open>Infinity\<close>, \<open>NaN\<close>), which tells the numbers apart
  up to the sign of zero. Strings are lists of code units.
\<close>

datatype literal_value =
    LString string
  | LNumber string
  | LBoolean bool
  | LNull
  | LRegExp string string
  | LBigInt nat

text \<open>
  A plain object is the list of its own enumerable properties in the order JavaScript
  enumerates them, with distinct keys: the keys that are array indices first, in
  ascending order, then the other keys in the order they were added. An array is the
  list of its elements.
\<close>

datatype jsvalue =
    JLit literal_value
  | JArray "jsvalue list"
  | JObject "(string \<times> jsvalue) list"

type_synonym js_object = "(string \<times> jsvalue) list"

datatype error = TypeError string | SyntaxError | MagicStringError string

text \<open>
  A key is an array index when it is the decimal text, without a leading zero, of a
  number below \<open>2^32 - 1\<close>.
\<close>

definition is_digit :: "char \<Rightarrow> bool" where
  "is_digit c = (48 \<le> (of_char c :: nat) \<and> (of_char c :: nat) \<le> 57)"

definition digits_value :: "string \<Rightarrow> nat" where
  "digits_value key = foldl (\<lambda>n c. 10 * n + (of_char c - 48)) 0 key"

definition array_index :: "string \<Rightarrow> nat option" where
  "array_index key =
     (if key = [] \<or> \<not> list_all is_digit key \<or> (hd key = CHR ''0'' \<and> key \<noteq> ''0'')
      then None
      else if digits_value key < 4294967295 then Some (digits_value key) else None)"

definition goes_before :: "string \<Rightarrow> string \<Rightarrow> bool" where
  "goes_before key other =
     (case array_index key of
        None \<Rightarrow> False
      | Some n \<Rightarrow> (case array_index other of None \<Rightarrow> True | Some m \<Rightarrow> n < m))"

text \<open>
  Defining an own property: a key that is there keeps its place and takes the new value;
  a new key goes to its place in the order of enumeration.
\<close>

fun set_property :: "string \<Rightarrow> jsvalue \<Rightarrow> js_object \<Rightarrow> js_object" where
  "set_property key v [] = [(key, v)]"
| "set_property key v ((k, w) # ps) =
     (if k = key then (key, v) # ps
      else if goes_before key k then (key, v) # (k, w) # ps
      else (k, w) # set_property key v ps)"

text \<open>JavaScript's \<open>ToBoolean\<close>, as used by \<open>if (x)\<close>.\<close>

fun truthy :: "jsvalue \<Rightarrow> bool" where
  "truthy (JLit (LString s)) = (s \<noteq> [])"
| "truthy (JLit (LNumber n)) = (n \<noteq> ''0'' \<and> n \<noteq> ''NaN'')"
| "truthy (JLit (LBoolean b)) = b"
| "truthy (JLit LNull) = False"
| "truthy (JLit (LRegExp p f)) = True"
| "truthy (JLit (LBigInt n)) = (n \<noteq> 0)"
| "truthy (JArray xs) = True"
| "truthy (JObject ps) = True"

text \<open>\<open>if (o.k)\<close> for a property that may be absent: \<open>undefined\<close> is falsy.\<close>

fun truthy_opt :: "jsvalue option \<Rightarrow> bool" where
  "truthy_opt None = False"
| "truthy_opt (Some v) = truthy v"

section \<open>The syntax tree (ESTree)\<close>

text \<open>
  Every node carries the offsets \<open>start\<close> and \<open>end\<close> of its text in the source. Node
  types the plugin never tests for are \<open>OtherNode\<close>, with their type name and child nodes
  (an array literal is \<open>OtherNode ''ArrayExpression''\<close>, a template string
  \<open>OtherNode ''TemplateLiteral''\<close>). The members of an object literal are \<open>Property\<close>
  nodes (with the \<open>computed\<close> flag, the key and the value) and \<open>SpreadElement\<close> nodes.
\<close>

datatype node =
    Literal nat nat literal_value
  | Identifier nat nat string
  | ObjectExpression nat nat "property list"
  | CallExpression nat nat node "node list"
  | OtherNode string nat nat "node list"
and property =
    Property nat nat bool node node
  | SpreadElement nat nat node

section \<open>The rewrite plugin (second module of build.config.ts)\<close>

subsection \<open>falsy\<close>

text \<open>
  \<open>falsy(value)\<close> returns \<open>value !== null && value !== undefined\<close>; the callback of
  \<open>estreeToObject\<close> returns a pair or \<open>null\<close>, modelled by an option.
\<close>

definition falsy :: "'a option \<Rightarrow> bool" where
  "falsy v = (v \<noteq> None)"

subsection \<open>estreeToObject\<close>

text \<open>\<open>Object.fromEntries\<close> defines the entries as own properties, one after the other.\<close>

definition Object_fromEntries :: "(string \<times> jsvalue) list \<Rightarrow> js_object" where
  "Object_fromEntries es = fold (\<lambda>(k, v) obj. set_property k v obj) es []"

text \<open>
  \<open>estreeToObject\<close> maps every member of the object literal to a pair or to \<open>null\<close>:
  a \<open>Property\<close> whose key has a \<open>name\<close> (an \<open>Identifier\<close>) and whose value is a
  \<open>Literal\<close> gives the name and the literal's value, one whose value is an
  \<open>ObjectExpression\<close> gives the name and the converted object, everything else gives
  \<open>null\<close>. The \<open>computed\<close> flag is never read.
\<close>

fun estreeToObject :: "property list \<Rightarrow> js_object"
  and estreeEntries :: "property list \<Rightarrow> (string \<times> jsvalue) option list"
  and estreeEntry :: "property \<Rightarrow> (string \<times> jsvalue) option"
where
  "estreeToObject props =
     Object_fromEntries (map the (filter falsy (estreeEntries props)))"
| "estreeEntries [] = []"
| "estreeEntries (p # ps) = estreeEntry p # estreeEntries ps"
| "estreeEntry (Property s e c (Identifier ks ke name) (Literal vs ve v)) =
     Some (name, JLit v)"
| "estreeEntry (Property s e c (Identifier ks ke name) (ObjectExpression vs ve ps)) =
     Some (name, JObject (estreeToObject ps))"
| "estreeEntry (Property s e c k v) = None"
| "estreeEntry (SpreadElement s e a) = None"

declare estreeToObject.simps [simp del]

subsection \<open>buildRuntimeDefinition\<close>

text \<open>Decimal digits of a natural number (\<open>String(n)\<close>, the keys of array elements).\<close>

fun string_of_nat :: "nat \<Rightarrow> string" where
  "string_of_nat n =
     (if n < 10 then [''0123456789'' ! n]
      else string_of_nat (n div 10) @ [''0123456789'' ! (n mod 10)])"

declare string_of_nat.simps [simp del]

text \<open>
  \<open>Object.entries(v)\<close>: the own enumerable properties of an object, the indexed elements
  of an array, the indexed characters of a string, nothing for the other primitives and
  for a regular expression.
\<close>

fun Object_entries :: "jsvalue \<Rightarrow> (string \<times> jsvalue) list" where
  "Object_entries (JObject ps) = ps"
| "Object_entries (JArray xs) = zip (map string_of_nat [0..<length xs]) xs"
| "Object_entries (JLit (LString s)) =
     zip (map string_of_nat [0..<length s]) (map (\<lambda>c. JLit (LString [c])) s)"
| "Object_entries (JLit l) = []"

text \<open>
  \<open>optionDefinition.default\<close>: reading a property of \<open>null\<close> throws; an object gives its
  property or \<open>undefined\<close>; strings, numbers, booleans, regular expressions, big integers
  and arrays have no property of that name.
\<close>

fun get_default :: "jsvalue \<Rightarrow> error + jsvalue option" where
  "get_default (JLit LNull) = Inl (TypeError ''Cannot read properties of null'')"
| "get_default (JObject ps) = Inr (map_of ps ''default'')"
| "get_default v = Inr None"

text \<open>
  \<open>o[key] = value\<close> on a plain object: the key \<open>__proto__\<close> reaches the setter of
  \<open>Object.prototype\<close> and creates no own property; any other key is defined as an own
  property.
\<close>

definition assign_property :: "string \<Rightarrow> jsvalue \<Rightarrow> js_object \<Rightarrow> js_object" where
  "assign_property key v obj =
     (if key = ''__proto__'' then obj else set_property key v obj)"

text \<open>The callback of \<open>forEach\<close>, on the options collected so far.\<close>

definition add_option :: "string \<times> jsvalue \<Rightarrow> js_object \<Rightarrow> error + js_object" where
  "add_option entry opts =
     (case entry of (optionKey, optionDefinition) \<Rightarrow>
        (case get_default optionDefinition of
           Inl err \<Rightarrow> Inl err
         | Inr d \<Rightarrow>
             if truthy_opt d
             then Inr (assign_property optionKey (JObject [(''default'', the d)]) opts)
             else Inr opts))"

text \<open>\<open>forEach\<close>: an exception of the callback ends the loop and propagates.\<close>

fun forEach_option :: "(string \<times> jsvalue) list \<Rightarrow> js_object \<Rightarrow> error + js_object" where
  "forEach_option [] opts = Inr opts"
| "forEach_option (entry # entries) opts =
     (case add_option entry opts of
        Inl err \<Rightarrow> Inl err
      | Inr opts' \<Rightarrow> forEach_option entries opts')"

definition buildRuntimeDefinition :: "js_object \<Rightarrow> error + js_object" where
  "buildRuntimeDefinition definition =
     (case (if truthy_opt (map_of definition ''options'')
            then (case forEach_option
                         (Object_entries (the (map_of definition ''options''))) [] of
                    Inl err \<Rightarrow> Inl err
                  | Inr opts \<Rightarrow> Inr [(''options'', JObject opts)])
            else Inr []) of
        Inl err \<Rightarrow> Inl err
      | Inr runtimeDefinition \<Rightarrow>
          if truthy_opt (map_of definition ''globalOptions'')
          then Inr (runtimeDefinition @
                    [(''globalOptions'', the (map_of definition ''globalOptions''))])
          else Inr runtimeDefinition)"

subsection \<open>JSON.stringify\<close>

text \<open>
  A string is quoted with the escapes of JSON: the quote, the backslash, the short
  escapes of five control characters and \<open>\u00XX\<close> for the other code units below 32.
\<close>

definition hex_digit :: "nat \<Rightarrow> char" where
  "hex_digit n = ''0123456789abcdef'' ! (n mod 16)"

definition escape_char :: "char \<Rightarrow> string" where
  "escape_char c =
     (if c = CHR 0x22 then [CHR 0x5C, CHR 0x22]
      else if c = CHR 0x5C then [CHR 0x5C, CHR 0x5C]
      else if c = CHR 0x08 then [CHR 0x5C, CHR ''b'']
      else if c = CHR 0x09 then [CHR 0x5C, CHR ''t'']
      else if c = CHR 0x0A then [CHR 0x5C, CHR ''n'']
      else if c = CHR 0x0C then [CHR 0x5C, CHR ''f'']
      else if c = CHR 0x0D then [CHR 0x5C, CHR ''r'']
      else if (of_char c :: nat) < 32
      then [CHR 0x5C, CHR ''u'', CHR ''0'', CHR ''0'',
            hex_digit (of_char c div 16), hex_digit (of_char c)]
      else [c])"

definition quote :: "string \<Rightarrow> string" where
  "quote s = [CHR 0x22] @ concat (map escape_char s) @ [CHR 0x22]"

text \<open>\<open>Array.prototype.join\<close> with a comma.\<close>

fun join_comma :: "string list \<Rightarrow> string" where
  "join_comma [] = []"
| "join_comma [x] = x"
| "join_comma (x # y # ys) = x @ '','' @ join_comma (y # ys)"

text \<open>
  \<open>JSON.stringify\<close> on the values of this model: a finite number is written as
  JavaScript prints it and the other numbers as \<open>null\<close>, a big integer throws, a regular
  expression is an object without enumerable properties, members are written in the
  object's own order.
\<close>

fun JSON_stringify :: "jsvalue \<Rightarrow> error + string"
  and stringify_elements :: "jsvalue list \<Rightarrow> error + string list"
  and stringify_members :: "(string \<times> jsvalue) list \<Rightarrow> error + string list"
where
  "JSON_stringify (JLit (LString s)) = Inr (quote s)"
| "JSON_stringify (JLit (LNumber n)) =
     Inr (if n = ''Infinity'' \<or> n = ''-Infinity'' \<or> n = ''NaN'' then ''null'' else n)"
| "JSON_stringify (JLit (LBoolean b)) = Inr (if b then ''true'' else ''false'')"
| "JSON_stringify (JLit LNull) = Inr ''null''"
| "JSON_stringify (JLit (LRegExp p f)) = Inr ''{}''"
| "JSON_stringify (JLit (LBigInt n)) =
     Inl (TypeError ''Do not know how to serialize a BigInt'')"
| "JSON_stringify (JArray xs) =
     (case stringify_elements xs of
        Inl err \<Rightarrow> Inl err
      | Inr ts \<Rightarrow> Inr (''['' @ join_comma ts @ '']''))"
| "JSON_stringify (JObject ps) =
     (case stringify_members ps of
        Inl err \<Rightarrow> Inl err
      | Inr ts \<Rightarrow> Inr (''{'' @ join_comma ts @ ''}''))"
| "stringify_elements [] = Inr []"
| "stringify_elements (x # xs) =
     (case JSON_stringify x of
        Inl err \<Rightarrow> Inl err
      | Inr t \<Rightarrow>
          (case stringify_elements xs of
             Inl err \<Rightarrow> Inl err
           | Inr ts \<Rightarrow> Inr (t # ts)))"
| "stringify_members [] = Inr []"
| "stringify_members (kv # ps) =
     (case JSON_stringify (snd kv) of
        Inl err \<Rightarrow> Inl err
      | Inr t \<Rightarrow>
          (case stringify_members ps of
             Inl err \<Rightarrow> Inl err
           | Inr ts \<Rightarrow> Inr ((quote (fst kv) @ '':'' @ t) # ts)))"

text \<open>
  The argument the plugin writes for an object literal: the serialisation of the runtime
  definition of the extracted object (the three statements before \<open>s.overwrite\<close>).
\<close>

definition runtime_argument :: "property list \<Rightarrow> error + string" where
  "runtime_argument props =
     (case buildRuntimeDefinition (estreeToObject props) of
        Inl err \<Rightarrow> Inl err
      | Inr runtimeDefinition \<Rightarrow> JSON_stringify (JObject runtimeDefinition))"

subsection \<open>MagicString\<close>

text \<open>
  The plugin edits the source through \<open>MagicString\<close>, of which it uses \<open>overwrite\<close>,
  \<open>hasChanged\<close>, \<open>toString\<close> and \<open>generateMap\<close>. The object keeps the original text and
  the replaced ranges \<open>(start, end, content)\<close>, ascending and disjoint.
  \<open>overwrite(start, end, content)\<close> throws when the range is empty or ends after the text,
  and when one of its two ends lies strictly inside a range that was replaced before (the
  chunk there cannot be split; the texts this plugin writes are never empty). A range that
  covers earlier replacements takes their place.
\<close>

type_synonym edit = "nat \<times> nat \<times> string"

record MagicString =
  original :: string
  edits :: "edit list"

definition new_MagicString :: "string \<Rightarrow> MagicString" where
  "new_MagicString source = \<lparr>original = source, edits = []\<rparr>"

definition splits_edit :: "nat \<Rightarrow> edit \<Rightarrow> bool" where
  "splits_edit i ed = (case ed of (a, b, c) \<Rightarrow> a < i \<and> i < b)"

definition covered :: "nat \<Rightarrow> nat \<Rightarrow> edit \<Rightarrow> bool" where
  "covered start end ed = (case ed of (a, b, c) \<Rightarrow> start \<le> a \<and> b \<le> end)"

fun insert_edit :: "edit \<Rightarrow> edit list \<Rightarrow> edit list" where
  "insert_edit ed [] = [ed]"
| "insert_edit ed (x # xs) =
     (if fst ed \<le> fst x then ed # x # xs else x # insert_edit ed xs)"

definition overwrite :: "nat \<Rightarrow> nat \<Rightarrow> string \<Rightarrow> MagicString \<Rightarrow> error + MagicString" where
  "overwrite start end content s =
     (if length (original s) < end
      then Inl (MagicStringError ''end is out of bounds'')
      else if end \<le> start
      then Inl (MagicStringError ''Cannot overwrite a zero-length range'')
      else if list_ex (splits_edit start) (edits s) \<or> list_ex (splits_edit end) (edits s)
      then Inl (MagicStringError ''Cannot split a chunk that has already been edited'')
      else Inr (s\<lparr>edits :=
                  insert_edit (start, end, content)
                    (filter (\<lambda>ed. \<not> covered start end ed) (edits s))\<rparr>))"

text \<open>\<open>render src pos es\<close> is the text from offset \<open>pos\<close> on, with the edits applied.\<close>

fun render :: "string \<Rightarrow> nat \<Rightarrow> edit list \<Rightarrow> string" where
  "render src pos [] = drop pos src"
| "render src pos ((a, b, c) # es) = take (a - pos) (drop pos src) @ c @ render src b es"

definition toString :: "MagicString \<Rightarrow> string" where
  "toString s = render (original s) 0 (edits s)"

definition hasChanged :: "MagicString \<Rightarrow> bool" where
  "hasChanged s = (original s \<noteq> toString s)"

text \<open>The source map is not looked into: it stands for the edits it was made from.\<close>

datatype source_map = SourceMap "edit list"

definition generateMap :: "MagicString \<Rightarrow> source_map" where
  "generateMap s = SourceMap (edits s)"

subsection \<open>The visitor\<close>

text \<open>
  \<open>enter\<close> is an \<open>async\<close> function without \<open>await\<close>: it runs to its end when the walker
  calls it, and an exception inside it rejects the promise it returns instead of reaching
  the walker. \<open>Inl\<close> is that rejection. With an empty argument list \<open>arg\<close> is
  \<open>undefined\<close> and \<open>arg.type\<close> throws.
\<close>

fun enter :: "node \<Rightarrow> MagicString \<Rightarrow> error + MagicString" where
  "enter (CallExpression s e (Identifier cs ce name) arguments) ms =
     (if name = ''defineParagraph''
      then (case arguments of
              [] \<Rightarrow> Inl (TypeError ''Cannot read properties of undefined'')
            | ObjectExpression start end props # rest \<Rightarrow>
                (case runtime_argument props of
                   Inl err \<Rightarrow> Inl err
                 | Inr text \<Rightarrow> overwrite start end text ms)
            | arg # rest \<Rightarrow> Inr ms)
      else Inr ms)"
| "enter n ms = Inr ms"

text \<open>
  The state of the walk: the \<open>MagicString\<close> and the rejections so far. The walker drops
  the promise, so after a rejection the walk goes on with the text as it was.
\<close>

type_synonym walk_state = "MagicString \<times> error list"

definition call_enter :: "node \<Rightarrow> walk_state \<Rightarrow> walk_state" where
  "call_enter n st =
     (case enter n (fst st) of
        Inl err \<Rightarrow> (fst st, snd st @ [err])
      | Inr ms \<Rightarrow> (ms, snd st))"

text \<open>
  \<open>walk\<close> of estree-walker: \<open>enter\<close> on the node, then the child nodes in the order of
  the node's fields (the callee before the arguments, the key before the value). On a
  \<open>Property\<close> or \<open>SpreadElement\<close> node \<open>enter\<close> returns at its first test.
\<close>

fun walk :: "node \<Rightarrow> walk_state \<Rightarrow> walk_state"
  and walk_nodes :: "node list \<Rightarrow> walk_state \<Rightarrow> walk_state"
  and walk_property :: "property \<Rightarrow> walk_state \<Rightarrow> walk_state"
  and walk_properties :: "property list \<Rightarrow> walk_state \<Rightarrow> walk_state"
where
  "walk (Literal s e v) st = call_enter (Literal s e v) st"
| "walk (Identifier s e name) st = call_enter (Identifier s e name) st"
| "walk (ObjectExpression s e props) st =
     walk_properties props (call_enter (ObjectExpression s e props) st)"
| "walk (CallExpression s e callee arguments) st =
     walk_nodes arguments (walk callee (call_enter (CallExpression s e callee arguments) st))"
| "walk (OtherNode t s e children) st =
     walk_nodes children (call_enter (OtherNode t s e children) st)"
| "walk_nodes [] st = st"
| "walk_nodes (n # ns) st = walk_nodes ns (walk n st)"
| "walk_property (Property s e c k v) st = walk v (walk k st)"
| "walk_property (SpreadElement s e a) st = walk a st"
| "walk_properties [] st = st"
| "walk_properties (p # ps) st = walk_properties ps (walk_property p st)"

subsection \<open>transform\<close>

text \<open>\<open>fileRegex\<close> is \<open>/\.(vue)$/\<close>: the identifier ends in \<open>.vue\<close>.\<close>

definition fileRegex_test :: "string \<Rightarrow> bool" where
  "fileRegex_test id' = (4 \<le> length id' \<and> drop (length id' - 4) id' = ''.vue'')"

text \<open>\<open>String.prototype.includes\<close>.\<close>

fun string_includes :: "string \<Rightarrow> string \<Rightarrow> bool" where
  "string_includes [] sub = (sub = [])"
| "string_includes (c # cs) sub =
     (take (length sub) (c # cs) = sub \<or> string_includes cs sub)"

record nuxt_options =
  sourcemap_client :: bool
  sourcemap_server :: bool

text \<open>
  What \<open>transform\<close> returns: nothing (a bare \<open>return\<close>, which the bundler reads as
  "leave the module as it is"), the source, or the new code with a source map or \<open>null\<close>.
\<close>

datatype transform_result =
    ReturnUndefined
  | ReturnSource string
  | ReturnCode string "source_map option"

text \<open>
  The parser is the bundler's (\<open>this.parse\<close>), a parameter here; it throws on a syntax
  error, and \<open>transform\<close> with it. The result comes with the rejections of the visitor.
\<close>

definition transform ::
  "(string \<Rightarrow> error + node) \<Rightarrow> nuxt_options \<Rightarrow> string \<Rightarrow> string
     \<Rightarrow> error + (transform_result \<times> error list)" where
  "transform parse nuxt source id' =
     (if \<not> fileRegex_test id' then Inr (ReturnUndefined, [])
      else if \<not> string_includes source ''defineParagraph'' then Inr (ReturnUndefined, [])
      else (case parse source of
              Inl err \<Rightarrow> Inl err
            | Inr ast \<Rightarrow>
                (case walk ast (new_MagicString source, []) of
                   (s, rejected) \<Rightarrow>
                     if hasChanged s
                     then Inr (ReturnCode (toString s)
                                 (if sourcemap_client nuxt \<or> sourcemap_server nuxt
                                  then Some (generateMap s) else None),
                               rejected)
                     else Inr (ReturnSource source, rejected))))"

text \<open>The code the bundler goes on with.\<close>

fun effective_code :: "string \<Rightarrow> transform_result \<Rightarrow> string" where
  "effective_code source ReturnUndefined = source"
| "effective_code source (ReturnSource src) = src"
| "effective_code source (ReturnCode code m) = code"

section \<open>index.ts: the module setup\<close>

text \<open>The extensions the file watcher accepts for extraction.\<close>

definition POSSIBLE_EXTENSIONS :: "string list" where
  "POSSIBLE_EXTENSIONS = [''.js'', ''.ts'', ''.vue'', ''.mjs'']"

record ModuleOptions =
  chunkNames :: "string list option"
  fieldListTypes :: "string list option"

text \<open>\<open>Array.prototype.indexOf\<close>: the first index of the value, or -1.\<close>

fun indexOf :: "'a list \<Rightarrow> 'a \<Rightarrow> int" where
  "indexOf [] v = - 1"
| "indexOf (x # xs) v =
     (if x = v then 0 else (let i = indexOf xs v in if i < 0 then - 1 else i + 1))"

text \<open>
  Modelled from the spec: \<open>onlyUnique\<close> is imported from
  \<open>runtime/components/Edit/helpers\<close>, which is not among the sources. The spec asks for
  sets that are "deduplicated and order-stable (insertion order of first appearance)":
  as a callback of \<open>filter\<close>, it keeps a value at the index of its first appearance.
\<close>

definition onlyUnique :: "'a \<Rightarrow> nat \<Rightarrow> 'a list \<Rightarrow> bool" where
  "onlyUnique v index self = (indexOf self v = int index)"

text \<open>\<open>Array.prototype.filter\<close> with a callback that takes value, index and array.\<close>

definition filter_indexed :: "('a \<Rightarrow> nat \<Rightarrow> 'a list \<Rightarrow> bool) \<Rightarrow> 'a list \<Rightarrow> 'a list" where
  "filter_indexed f xs =
     map fst (filter (\<lambda>(x, i). f x i xs) (zip xs [0..<length xs]))"

definition getChunkNames :: "ModuleOptions \<Rightarrow> string list" where
  "getChunkNames moduleOptions =
     (let chunkNames = (case chunkNames moduleOptions of None \<Rightarrow> [] | Some xs \<Rightarrow> xs);
          chunkNames = (if \<not> List.member chunkNames ''global''
                        then chunkNames @ [''global''] else chunkNames)
      in filter_indexed onlyUnique chunkNames)"

definition getFieldListTypes :: "ModuleOptions \<Rightarrow> string list" where
  "getFieldListTypes moduleOptions =
     (let types = (case fieldListTypes moduleOptions of None \<Rightarrow> [] | Some xs \<Rightarrow> xs);
          types = (if \<not> List.member types ''default''
                   then types @ [''default''] else types)
      in filter_indexed onlyUnique types)"

text \<open>
  The chunk templates \<open>setup\<close> adds, by file name: one for each chunk name other than
  \<open>global\<close>, in the order of \<open>getChunkNames()\<close>.
\<close>

definition chunk_templates :: "ModuleOptions \<Rightarrow> string list" where
  "chunk_templates moduleOptions =
     map (\<lambda>chunkName. ''paragraphs-builder/chunk-'' @ chunkName @ ''.ts'')
       (filter (\<lambda>chunkName. chunkName \<noteq> ''global'') (getChunkNames moduleOptions))"

section \<open>defineParagraph.ts: the default options\<close>

record paragraph_config =
  options :: "js_object option"
  globalOptions :: "string list option"

text \<open>
  \<open>config.options[key] && 'default' in config.options[key]\<close>: a falsy value ends the
  test; \<open>in\<close> throws on a primitive and looks for the property in an object.
\<close>

fun has_default :: "jsvalue \<Rightarrow> error + bool" where
  "has_default (JObject ps) = Inr (''default'' \<in> fst ` set ps)"
| "has_default (JArray xs) = Inr False"
| "has_default (JLit (LRegExp p f)) = Inr False"
| "has_default (JLit l) =
     (if truthy (JLit l)
      then Inl (TypeError ''Cannot use in operator to search for default'')
      else Inr False)"

text \<open>The first loop, over the keys of \<open>config.options\<close>.\<close>

fun own_defaults :: "(string \<times> jsvalue) list \<Rightarrow> js_object \<Rightarrow> error + js_object" where
  "own_defaults [] defaultOptions = Inr defaultOptions"
| "own_defaults ((key, v) # rest) defaultOptions =
     (case has_default v of
        Inl err \<Rightarrow> Inl err
      | Inr False \<Rightarrow> own_defaults rest defaultOptions
      | Inr True \<Rightarrow>
          (case get_default v of
             Inl err \<Rightarrow> Inl err
           | Inr d \<Rightarrow> own_defaults rest (assign_property key (the d) defaultOptions)))"

text \<open>
  The second loop: \<open>for (const key in config.globalOptions)\<close> on an array runs over the
  indices of its elements, as strings.
\<close>

definition for_in_keys :: "'a list \<Rightarrow> string list" where
  "for_in_keys xs = map string_of_nat [0..<length xs]"

fun global_defaults :: "string list \<Rightarrow> js_object \<Rightarrow> js_object \<Rightarrow> js_object" where
  "global_defaults [] globalOptionsDefaults defaultOptions = defaultOptions"
| "global_defaults (key # keys) globalOptionsDefaults defaultOptions =
     (case map_of globalOptionsDefaults key of
        None \<Rightarrow> global_defaults keys globalOptionsDefaults defaultOptions
      | Some defaultValue \<Rightarrow>
          global_defaults keys globalOptionsDefaults
            (assign_property key defaultValue defaultOptions))"

definition defaultOptions :: "js_object \<Rightarrow> paragraph_config \<Rightarrow> error + js_object" where
  "defaultOptions globalOptionsDefaults config =
     (case own_defaults (case options config of None \<Rightarrow> [] | Some opts \<Rightarrow> opts) [] of
        Inl err \<Rightarrow> Inl err
      | Inr own \<Rightarrow>
          (case globalOptions config of
             None \<Rightarrow> Inr own
           | Some keys \<Rightarrow> Inr (global_defaults (for_in_keys keys) globalOptionsDefaults own)))"

text \<open>Object spread \<open>{...a, ...b}\<close>.\<close>

definition spread :: "js_object \<Rightarrow> js_object \<Rightarrow> js_object" where
  "spread a b = fold (\<lambda>(k, v) obj. set_property k v obj) b a"

text \<open>
  The \<open>options\<close> of the paragraph outside the library and the edit context: the default
  options, overridden by the options stored with the paragraph item.
\<close>

definition defineParagraph_options ::
  "js_object \<Rightarrow> paragraph_config \<Rightarrow> js_object option \<Rightarrow> error + js_object" where
  "defineParagraph_options globalOptionsDefaults config paragraphsBuilderOptions =
     (case defaultOptions globalOptionsDefaults config of
        Inl err \<Rightarrow> Inl err
      | Inr defaults \<Rightarrow>
          Inr (spread defaults
                 (case paragraphsBuilderOptions of None \<Rightarrow> [] | Some opts \<Rightarrow> opts)))"

section \<open>Notions of the specification\<close>

subsection \<open>Members of an object literal\<close>

text \<open>
  The members the specification calls unsupported: a spread, and a property whose value
  is neither a literal nor an object literal (an array literal, an identifier, a call, a
  template string).
\<close>

fun unsupported_member :: "property \<Rightarrow> bool" where
  "unsupported_member (SpreadElement s e a) = True"
| "unsupported_member (Property s e c k (Literal vs ve l)) = False"
| "unsupported_member (Property s e c k (ObjectExpression vs ve ps)) = False"
| "unsupported_member (Property s e c k v) = True"

text \<open>The name of a member whose key is an identifier.\<close>

fun key_name :: "property \<Rightarrow> string option" where
  "key_name (Property s e c (Identifier ks ke name) v) = Some name"
| "key_name p = None"

text \<open>
  The value the specification gives a supported property: a literal's own value, an
  object literal's converted mapping.
\<close>

fun converted_value :: "node \<Rightarrow> jsvalue option" where
  "converted_value (Literal s e l) = Some (JLit l)"
| "converted_value (ObjectExpression s e ps) = Some (JObject (estreeToObject ps))"
| "converted_value n = None"

text \<open>The pairs that \<open>estreeToObject\<close> hands to \<open>Object.fromEntries\<close>.\<close>

definition supported_entries :: "property list \<Rightarrow> (string \<times> jsvalue) list" where
  "supported_entries props = map the (filter falsy (estreeEntries props))"

text \<open>
  The specification's example: the argument
  \<open>{ options: { size: { type: "radios", default: "medium" } }, globalOptions: ["theme"] }\<close>
  of a call that starts at offset 0, as the parser reads it.
\<close>

definition example_options :: property where
  "example_options =
     Property 18 74 False (Identifier 18 25 ''options'')
       (ObjectExpression 27 74
          [Property 29 72 False (Identifier 29 33 ''size'')
             (ObjectExpression 35 72
                [Property 37 51 False (Identifier 37 41 ''type'')
                   (Literal 43 51 (LString ''radios'')),
                 Property 53 70 False (Identifier 53 60 ''default'')
                   (Literal 62 70 (LString ''medium''))])])"

definition example_globalOptions :: property where
  "example_globalOptions =
     Property 76 100 False (Identifier 76 89 ''globalOptions'')
       (OtherNode ''ArrayExpression'' 91 100 [Literal 92 99 (LString ''theme'')])"

text \<open>The object literal \<open>{ "size": "medium" }\<close>, whose key is a string literal.\<close>

definition string_key_example :: "property list" where
  "string_key_example =
     [Property 2 18 False (Literal 2 8 (LString ''size''))
        (Literal 10 18 (LString ''medium''))]"

subsection \<open>Replaced ranges\<close>

text \<open>
  Replaced ranges in order: each starts at or after the end of the one before (from \<open>pos\<close>
  on), is not empty, and ends inside a text of length \<open>len\<close>.
\<close>

fun wf_edits :: "nat \<Rightarrow> nat \<Rightarrow> edit list \<Rightarrow> bool" where
  "wf_edits len pos [] = (pos \<le> len)"
| "wf_edits len pos ((a, b, c) # es) = (pos \<le> a \<and> a < b \<and> wf_edits len b es)"

text \<open>
  Where a character of the source that lies outside the replaced ranges stands in the new
  text: its offset, plus the lengths of the replacements that end at or before it, minus
  the lengths of the ranges they replaced.
\<close>

definition added :: "edit list \<Rightarrow> nat \<Rightarrow> nat" where
  "added es i =
     sum_list (map (\<lambda>ed. length (snd (snd ed))) (filter (\<lambda>ed. fst (snd ed) \<le> i) es))"

definition removed :: "edit list \<Rightarrow> nat \<Rightarrow> nat" where
  "removed es i =
     sum_list (map (\<lambda>ed. fst (snd ed) - fst ed) (filter (\<lambda>ed. fst (snd ed) \<le> i) es))"

definition new_index :: "edit list \<Rightarrow> nat \<Rightarrow> nat" where
  "new_index es i = i + added es i - removed es i"

text \<open>The range of a replacement.\<close>

definition edit_range :: "edit \<Rightarrow> nat \<times> nat" where
  "edit_range ed = (fst ed, fst (snd ed))"

text \<open>
  What a part of the walk does to the state, given the argument ranges \<open>rs\<close> it can
  rewrite: the original text stays, ordered replacements stay ordered, every new
  replacement has one of the ranges \<open>rs\<close>, and without such a range nothing is replaced.
\<close>

definition walk_inv ::
  "(nat \<times> nat) list \<Rightarrow> MagicString \<times> error list \<Rightarrow> MagicString \<times> error list \<Rightarrow> bool" where
  "walk_inv rs st st' =
     (original (fst st') = original (fst st)
      \<and> (wf_edits (length (original (fst st))) 0 (edits (fst st))
           \<longrightarrow> wf_edits (length (original (fst st))) 0 (edits (fst st')))
      \<and> edit_range ` set (edits (fst st')) \<subseteq> edit_range ` set (edits (fst st)) \<union> set rs
      \<and> (rs = [] \<longrightarrow> fst st' = fst st))"

subsection \<open>Definition calls\<close>

text \<open>
  The range of the first argument of a call to the identifier \<open>defineParagraph\<close>, when
  that argument is an object literal.
\<close>

fun marker_argument :: "node \<Rightarrow> (nat \<times> nat) list" where
  "marker_argument (CallExpression s e (Identifier cs ce name)
                      (ObjectExpression start end props # rest)) =
     (if name = ''defineParagraph'' then [(start, end)] else [])"
| "marker_argument n = []"

text \<open>These ranges for all the calls below a node, in the order of the walk.\<close>

fun definition_arguments :: "node \<Rightarrow> (nat \<times> nat) list"
  and definition_arguments_nodes :: "node list \<Rightarrow> (nat \<times> nat) list"
  and definition_arguments_property :: "property \<Rightarrow> (nat \<times> nat) list"
  and definition_arguments_properties :: "property list \<Rightarrow> (nat \<times> nat) list"
where
  "definition_arguments (Literal s e v) = []"
| "definition_arguments (Identifier s e name) = []"
| "definition_arguments (ObjectExpression s e props) = definition_arguments_properties props"
| "definition_arguments (CallExpression s e callee arguments) =
     marker_argument (CallExpression s e callee arguments)
       @ definition_arguments callee @ definition_arguments_nodes arguments"
| "definition_arguments (OtherNode t s e children) = definition_arguments_nodes children"
| "definition_arguments_nodes [] = []"
| "definition_arguments_nodes (n # ns) = definition_arguments n @ definition_arguments_nodes ns"
| "definition_arguments_property (Property s e c k v) =
     definition_arguments k @ definition_arguments v"
| "definition_arguments_property (SpreadElement s e a) = definition_arguments a"
| "definition_arguments_properties [] = []"
| "definition_arguments_properties (p # ps) =
     definition_arguments_property p @ definition_arguments_properties ps"

subsection \<open>The transform on a file\<close>

text \<open>The replacements the walk has made when it ends.\<close>

definition replacements :: "string \<Rightarrow> node \<Rightarrow> edit list" where
  "replacements source ast = edits (fst (walk ast (new_MagicString source, [])))"

text \<open>
  A member as the parser reads it from JSON text, where every key is a quoted string: a
  property whose key is a literal.
\<close>

fun string_keyed :: "property \<Rightarrow> bool" where
  "string_keyed (Property s e c (Literal ks ke l) v) = True"
| "string_keyed p = False"

text \<open>
  Example files, each with the tree the parser builds for it: a call with the
  specification's example argument, the text the transform makes of it, and a call with
  a variable as its argument. \<open>example_parse\<close> is a parser that knows these files.
\<close>

definition example_source :: string where
  "example_source = ''defineParagraph({ options: { size: { type: \"radios\", default: \"medium\" } }, globalOptions: [\"theme\"] })''"

definition example_program :: node where
  "example_program =
     OtherNode ''Program'' 0 103 [OtherNode ''ExpressionStatement'' 0 103
       [CallExpression 0 103 (Identifier 0 15 ''defineParagraph'')
          [ObjectExpression 16 102 [example_options, example_globalOptions]]]]"

definition rewritten_source :: string where
  "rewritten_source = ''defineParagraph({\"options\":{\"size\":{\"default\":\"medium\"}}})''"

definition rewritten_members :: "property list" where
  "rewritten_members =
     [Property 17 56 False (Literal 17 26 (LString ''options''))
        (ObjectExpression 27 56
           [Property 28 55 False (Literal 28 34 (LString ''size''))
              (ObjectExpression 35 55
                 [Property 36 54 False (Literal 36 45 (LString ''default''))
                    (Literal 46 54 (LString ''medium''))])])]"

definition rewritten_program :: node where
  "rewritten_program =
     OtherNode ''Program'' 0 58 [OtherNode ''ExpressionStatement'' 0 58
       [CallExpression 0 58 (Identifier 0 15 ''defineParagraph'')
          [ObjectExpression 16 57 rewritten_members]]]"

definition variable_source :: string where
  "variable_source = ''defineParagraph(someVariable)''"

definition variable_program :: node where
  "variable_program =
     OtherNode ''Program'' 0 29 [OtherNode ''ExpressionStatement'' 0 29
       [CallExpression 0 29 (Identifier 0 15 ''defineParagraph'')
          [Identifier 16 28 ''someVariable'']]]"

definition example_parse :: "string \<Rightarrow> error + node" where
  "example_parse source =
     (if source = example_source then Inr example_program
      else if source = rewritten_source then Inr rewritten_program
      else if source = variable_source then Inr variable_program
      else Inl SyntaxError)"

definition no_sourcemap :: nuxt_options where
  "no_sourcemap = \<lparr>sourcemap_client = False, sourcemap_server = False\<rparr>"

subsection \<open>Deduplicated lists and example configurations\<close>

text \<open>
  A list without its repetitions, in the order of first appearance: the head stays, and
  is taken out of the deduplicated tail.
\<close>

primrec first_occurrences :: "'a list \<Rightarrow> 'a list" where
  "first_occurrences [] = []"
| "first_occurrences (x # xs) = x # filter (\<lambda>y. y \<noteq> x) (first_occurrences xs)"

text \<open>The configured list of an optional setting: empty when it is not set.\<close>

definition configured :: "string list option \<Rightarrow> string list" where
  "configured v = (case v of None \<Rightarrow> [] | Some xs \<Rightarrow> xs)"

text \<open>
  The members of the argument
  \<open>{ options: { title: { default: "" }, count: { default: 0 }, open: { default: false },
  size: { default: "medium" } } }\<close> of a call that starts at offset 0.
\<close>

definition falsy_defaults_example :: "property list" where
  "falsy_defaults_example =
     [Property 18 131 False (Identifier 18 25 ''options'')
        (ObjectExpression 27 131
           [Property 29 51 False (Identifier 29 34 ''title'')
              (ObjectExpression 36 51
                 [Property 38 49 False (Identifier 38 45 ''default'')
                    (Literal 47 49 (LString []))]),
            Property 53 74 False (Identifier 53 58 ''count'')
              (ObjectExpression 60 74
                 [Property 62 72 False (Identifier 62 69 ''default'')
                    (Literal 71 72 (LNumber ''0''))]),
            Property 76 100 False (Identifier 76 80 ''open'')
              (ObjectExpression 82 100
                 [Property 84 98 False (Identifier 84 91 ''default'')
                    (Literal 93 98 (LBoolean False))]),
            Property 102 129 False (Identifier 102 106 ''size'')
              (ObjectExpression 108 129
                 [Property 110 127 False (Identifier 110 117 ''default'')
                    (Literal 119 127 (LString ''medium''))])])]"

text \<open>Module options with a repeated chunk name, and a paragraph's runtime config.\<close>

definition chunk_example :: ModuleOptions where
  "chunk_example =
     \<lparr>chunkNames = Some [''rare'', ''global'', ''rare'', ''heavy''],
      fieldListTypes = None\<rparr>"

definition theme_config :: paragraph_config where
  "theme_config =
     \<lparr>options = Some [(''size'', JObject [(''default'', JLit (LString ''medium''))])],
      globalOptions = Some [''theme'']\<rparr>"

subsection \<open>A file the transform has already rewritten\<close>

text \<open>
  What the parser reads from a file a run has rewritten without a rejection: every call
  to the marker has a first argument, and where that argument is an object literal its
  members are the members of JSON text, with string literals as keys.
\<close>

fun rerun_call :: "node \<Rightarrow> bool" where
  "rerun_call (CallExpression s e (Identifier cs ce name) arguments) =
     (if name = ''defineParagraph''
      then (case arguments of
              [] \<Rightarrow> False
            | ObjectExpression start end props # rest \<Rightarrow> list_all string_keyed props
            | arg # rest \<Rightarrow> True)
      else True)"
| "rerun_call n = True"

fun rerun_shaped :: "node \<Rightarrow> bool"
  and rerun_shaped_nodes :: "node list \<Rightarrow> bool"
  and rerun_shaped_property :: "property \<Rightarrow> bool"
  and rerun_shaped_properties :: "property list \<Rightarrow> bool"
where
  "rerun_shaped (Literal s e v) = True"
| "rerun_shaped (Identifier s e name) = True"
| "rerun_shaped (ObjectExpression s e props) = rerun_shaped_properties props"
| "rerun_shaped (CallExpression s e callee arguments) =
     (rerun_call (CallExpression s e callee arguments)
      \<and> rerun_shaped callee \<and> rerun_shaped_nodes arguments)"
| "rerun_shaped (OtherNode t s e children) = rerun_shaped_nodes children"
| "rerun_shaped_nodes [] = True"
| "rerun_shaped_nodes (n # ns) = (rerun_shaped n \<and> rerun_shaped_nodes ns)"
| "rerun_shaped_property (Property s e c k v) = (rerun_shaped k \<and> rerun_shaped v)"
| "rerun_shaped_property (SpreadElement s e a) = rerun_shaped a"
| "rerun_shaped_properties [] = True"
| "rerun_shaped_properties (p # ps) =
     (rerun_shaped_property p \<and> rerun_shaped_properties ps)"

text \<open>
  Argument ranges as a parser gives them for calls that do not lie inside one another's
  arguments: each holds at least the two braces, ends inside the text, and two different
  ranges do not overlap.
\<close>

definition separate_arguments :: "nat \<Rightarrow> (nat \<times> nat) set \<Rightarrow> bool" where
  "separate_arguments len R =
     ((\<forall>r \<in> R. fst r + 2 \<le> snd r \<and> snd r \<le> len)
      \<and> (\<forall>r \<in> R. \<forall>r' \<in> R. r = r' \<or> snd r \<le> fst r' \<or> snd r' \<le> fst r))"

text \<open>
  The state of the walk on such a file: ordered replacements, each of an argument range
  of \<open>R\<close> and each by \<open>{}\<close>. A part of the walk that can rewrite the ranges \<open>rs\<close> keeps
  such a state, rejects nothing, and replaces exactly the ranges \<open>rs\<close> in addition.
\<close>

definition rerun_state :: "(nat \<times> nat) set \<Rightarrow> walk_state \<Rightarrow> bool" where
  "rerun_state R st =
     (wf_edits (length (original (fst st))) 0 (edits (fst st))
      \<and> edit_range ` set (edits (fst st)) \<subseteq> R
      \<and> (\<forall>ed \<in> set (edits (fst st)). snd (snd ed) = ''{}'')
      \<and> separate_arguments (length (original (fst st))) R)"

definition rerun_inv ::
  "(nat \<times> nat) set \<Rightarrow> (nat \<times> nat) list \<Rightarrow> walk_state \<Rightarrow> walk_state \<Rightarrow> bool" where
  "rerun_inv R rs st st' =
     (rerun_state R st \<longrightarrow>
        rerun_state R st' \<and> snd st' = snd st
        \<and> original (fst st') = original (fst st)
        \<and> edit_range ` set (edits (fst st')) = edit_range ` set (edits (fst st)) \<union> set rs)"

text \<open>
  The file the second run makes of the example, with its tree, and a parser that knows
  the rewritten files.
\<close>

definition minimal_source :: string where
  "minimal_source = ''defineParagraph({})''"

definition minimal_program :: node where
  "minimal_program =
     OtherNode ''Program'' 0 19 [OtherNode ''ExpressionStatement'' 0 19
       [CallExpression 0 19 (Identifier 0 15 ''defineParagraph'')
          [ObjectExpression 16 18 []]]]"

definition rerun_parse :: "string \<Rightarrow> error + node" where
  "rerun_parse source =
     (if source = rewritten_source then Inr rewritten_program
      else if source = minimal_source then Inr minimal_program
      else Inl SyntaxError)"

section \<open>Extraction\<close>

lemmas property_order = goes_before_def array_index_def is_digit_def digits_value_def

lemma estreeEntries_append: "estreeEntries (ps @ qs) = estreeEntries ps @ estreeEntries qs"
  by (induction ps) simp_all

lemma unsupported_entry: "unsupported_member p \<Longrightarrow> estreeEntry p = None"
  by (induction p rule: unsupported_member.induct) simp_all

lemma estreeEntry_key:
  assumes "estreeEntry p = Some (k, v)"
  shows "key_name p = Some k"
proof (cases p)
  case (Property s e c key val)
  with assms show ?thesis by (cases key; cases val) simp_all
next
  case (SpreadElement s e a)
  with assms show ?thesis by simp
qed

lemma map_of_set_property: "map_of (set_property key v obj) = (map_of obj)(key \<mapsto> v)"
  by (induction obj) auto

lemma map_of_fold_update:
  "map_of (fold (\<lambda>(k, v) obj. set_property k v obj) es acc) = map_of acc ++ map_of (rev es)"
proof (induction es arbitrary: acc)
  case Nil
  show ?case by simp
next
  case (Cons kv es)
  obtain k v where kv: "kv = (k, v)" by (cases kv)
  have "map_of (fold (\<lambda>(k, v) obj. set_property k v obj) (kv # es) acc)
        = map_of (set_property k v acc) ++ map_of (rev es)"
    using Cons.IH [of "set_property k v acc"] by (simp add: kv)
  also have "\<dots> = map_of acc ++ map_of (rev (kv # es))"
    by (simp add: kv map_of_set_property map_add_def fun_eq_iff split: option.splits)
  finally show ?case .
qed

lemma map_of_fromEntries: "map_of (Object_fromEntries es) = map_of (rev es)"
  by (simp add: Object_fromEntries_def map_of_fold_update)

lemma estreeToObject_supported:
  "estreeToObject props = Object_fromEntries (supported_entries props)"
  by (simp add: supported_entries_def estreeToObject.simps)

lemma supported_entries_Nil [simp]: "supported_entries [] = []"
  by (simp add: supported_entries_def)

lemma supported_entries_Cons:
  "supported_entries (p # ps) =
     (case estreeEntry p of None \<Rightarrow> supported_entries ps
      | Some kv \<Rightarrow> kv # supported_entries ps)"
  by (simp add: supported_entries_def falsy_def split: option.splits)

lemma supported_entries_append:
  "supported_entries (ps @ qs) = supported_entries ps @ supported_entries qs"
  by (simp add: supported_entries_def estreeEntries_append)

lemma supported_entries_keys:
  "(k, v) \<in> set (supported_entries ps) \<Longrightarrow> \<exists>p \<in> set ps. key_name p = Some k"
  by (induction ps) (auto simp: supported_entries_Cons split: option.splits dest: estreeEntry_key)

lemma map_of_supported_None:
  assumes "\<forall>p \<in> set ps. key_name p \<noteq> Some k"
  shows "map_of (rev (supported_entries ps)) k = None"
proof -
  have "k \<notin> fst ` set (rev (supported_entries ps))"
    using supported_entries_keys [of k _ ps] assms by fastforce
  then show ?thesis by (simp add: map_of_eq_None_iff)
qed

text \<open>
  Claim C7. A member of an object literal that is a spread, or a property whose value is
  an array literal or another expression that is neither a literal nor an object literal,
  gives no entry, and the extraction of the object literal is the extraction of the
  literal without that member: the other properties are converted as before.
  \<open>estreeToObject\<close> has no failing branch; it returns an object for every list of members.
\<close>

theorem unsupported_member_dropped:
  assumes "unsupported_member p"
  shows "estreeEntry p = None \<and> estreeToObject (ps @ p # qs) = estreeToObject (ps @ qs)"
  using assms
  by (simp add: unsupported_entry estreeEntries_append falsy_def estreeToObject.simps)

theorem unsupported_member_dropped_witness:
  "unsupported_member example_globalOptions
   \<and> estreeEntry example_globalOptions = None
   \<and> estreeToObject ([example_options] @ example_globalOptions # [])
       = estreeToObject ([example_options] @ [])
   \<and> estreeToObject [example_options, example_globalOptions]
       = [(''options'', JObject [(''size'', JObject
            [(''type'', JLit (LString ''radios'')),
             (''default'', JLit (LString ''medium''))])])]"
proof -
  have u: "unsupported_member example_globalOptions"
    by (simp add: example_globalOptions_def)
  have v: "estreeToObject [example_options]
       = [(''options'', JObject [(''size'', JObject
            [(''type'', JLit (LString ''radios'')),
             (''default'', JLit (LString ''medium''))])])]"
    by (simp add: example_options_def Object_fromEntries_def property_order falsy_def
          estreeToObject.simps)
  show ?thesis
    using unsupported_member_dropped [OF u, of "[example_options]" "[]"] u v by simp
qed

lemma estreeEntry_converted:
  "converted_value val = Some v \<Longrightarrow>
   estreeEntry (Property s e c (Identifier ks ke name) val) = Some (name, v)"
  by (cases val) auto

text \<open>
  Claim C4, as the code has it. The extracted mapping has an entry for each property that
  is written with an identifier as its key (not computed) and a literal or an object
  literal as its value: under the identifier's name, with the literal's own value or the
  recursively converted object, where the last property of that name decides. A name that
  no member carries as an identifier key has no entry: a property whose key is a string
  literal is skipped.
\<close>

theorem identifier_keys_extracted:
  "(props = before @ Property s e False (Identifier ks ke name) val # after
      \<and> (\<forall>p \<in> set after. key_name p \<noteq> Some name)
      \<and> converted_value val = Some v
    \<longrightarrow> map_of (estreeToObject props) name = Some v)
   \<and> ((\<forall>p \<in> set props. key_name p \<noteq> Some k) \<longrightarrow> map_of (estreeToObject props) k = None)"
proof -
  have obj: "map_of (estreeToObject qs) = map_of (rev (supported_entries qs))" for qs
    by (simp only: estreeToObject_supported map_of_fromEntries)
  have found: "map_of (estreeToObject props) name = Some v"
    if props: "props = before @ Property s e False (Identifier ks ke name) val # after"
      and later: "\<forall>p \<in> set after. key_name p \<noteq> Some name"
      and conv: "converted_value val = Some v"
  proof -
    have after: "map_of (rev (supported_entries after)) name = None"
      using later by (rule map_of_supported_None)
    have entry: "estreeEntry (Property s e False (Identifier ks ke name) val) = Some (name, v)"
      using conv by (rule estreeEntry_converted)
    have "supported_entries props
          = supported_entries before @ (name, v) # supported_entries after"
      by (simp add: props supported_entries_append supported_entries_Cons entry)
    then show ?thesis using after by (simp add: obj map_add_def)
  qed
  have none: "(\<forall>p \<in> set props. key_name p \<noteq> Some k) \<longrightarrow> map_of (estreeToObject props) k = None"
    using map_of_supported_None [of props k] by (simp only: obj) blast
  show ?thesis using found none by blast
qed

theorem identifier_keys_extracted_witness:
  "map_of (estreeToObject [example_options, example_globalOptions]) ''options''
     = Some (JObject [(''size'', JObject
         [(''type'', JLit (LString ''radios'')),
          (''default'', JLit (LString ''medium''))])])
   \<and> map_of (estreeToObject
         [Property 37 51 False (Identifier 37 41 ''type'') (Literal 43 51 (LString ''radios'')),
          Property 53 70 False (Identifier 53 60 ''default'')
            (Literal 62 70 (LString ''medium''))]) ''default''
     = Some (JLit (LString ''medium''))
   \<and> list_all (\<lambda>p. key_name p \<noteq> Some ''size'') string_key_example
   \<and> map_of (estreeToObject string_key_example) ''size'' = None"
proof -
  let ?type = "Property 37 51 False (Identifier 37 41 ''type'') (Literal 43 51 (LString ''radios''))"
  let ?inner = "[?type, Property 53 70 False (Identifier 53 60 ''default'')
                          (Literal 62 70 (LString ''medium''))]"
  let ?size = "[Property 29 72 False (Identifier 29 33 ''size'') (ObjectExpression 35 72 ?inner)]"
  have inner: "estreeToObject ?inner
       = [(''type'', JLit (LString ''radios'')), (''default'', JLit (LString ''medium''))]"
    by (simp add: Object_fromEntries_def property_order falsy_def estreeToObject.simps)
  have size: "estreeToObject ?size = [(''size'', JObject (estreeToObject ?inner))]"
    by (simp add: Object_fromEntries_def property_order falsy_def estreeToObject.simps [of ?size])
  have a: "map_of (estreeToObject [example_options, example_globalOptions]) ''options''
           = Some (JObject (estreeToObject ?size))"
    using identifier_keys_extracted
      [of "[example_options, example_globalOptions]" "[]" 18 74 18 25 "''options''"
          "ObjectExpression 27 74 ?size" "[example_globalOptions]"
          "JObject (estreeToObject ?size)"]
    by (simp add: example_options_def example_globalOptions_def)
  have b: "map_of (estreeToObject ?inner) ''default'' = Some (JLit (LString ''medium''))"
    using identifier_keys_extracted
      [of ?inner "[?type]" 53 70 53 60 "''default''" "Literal 62 70 (LString ''medium'')" "[]"
          "JLit (LString ''medium'')"]
    by simp
  have c: "\<forall>p \<in> set string_key_example. key_name p \<noteq> Some ''size''"
    by (simp add: string_key_example_def)
  have d: "map_of (estreeToObject string_key_example) ''size'' = None"
    using identifier_keys_extracted [where props = string_key_example and k = "''size''"] c
    by blast
  show ?thesis using a b c d by (simp add: size inner list_all_iff)
qed

text \<open>
  The claim as it is written fails on a key that is a string literal: for
  \<open>{ "size": "medium" }\<close> the extracted mapping is empty.
\<close>

theorem string_literal_key_counterexample:
  "estreeToObject string_key_example = []
   \<and> map_of (estreeToObject string_key_example) ''size'' = None"
  by (simp add: string_key_example_def Object_fromEntries_def property_order falsy_def
        estreeToObject.simps)

section \<open>MagicString: ordered replacements and the text outside them\<close>

lemma wf_edits_Cons:
  "wf_edits len pos (ed # es) =
     (pos \<le> fst ed \<and> fst ed < fst (snd ed) \<and> wf_edits len (fst (snd ed)) es)"
  by (cases ed) simp

lemma wf_edits_mono: "wf_edits len pos es \<Longrightarrow> pos' \<le> pos \<Longrightarrow> wf_edits len pos' es"
  by (cases es) (simp_all add: wf_edits_Cons)

lemma wf_edits_le: "wf_edits len pos es \<Longrightarrow> pos \<le> len"
proof (induction es arbitrary: pos)
  case Nil
  then show ?case by simp
next
  case (Cons ed es)
  then have "pos \<le> fst ed" "fst ed < fst (snd ed)" "fst (snd ed) \<le> len"
    by (simp_all add: wf_edits_Cons)
  then show ?case by linarith
qed

lemma wf_edits_filter: "wf_edits len pos es \<Longrightarrow> wf_edits len pos (filter P es)"
proof (induction es arbitrary: pos)
  case Nil
  then show ?case by simp
next
  case (Cons ed es)
  from Cons.prems have 1: "pos \<le> fst ed" "fst ed < fst (snd ed)"
    "wf_edits len (fst (snd ed)) es"
    by (simp_all add: wf_edits_Cons)
  have 2: "wf_edits len (fst (snd ed)) (filter P es)" using Cons.IH 1(3) .
  have 3: "wf_edits len pos (filter P es)"
    using 2 by (rule wf_edits_mono) (use 1 in linarith)
  show ?case using 1 2 3 by (simp add: wf_edits_Cons)
qed

lemma wf_edits_insert:
  assumes "wf_edits len pos es" "pos \<le> s" "s < e" "e \<le> len"
    and "\<forall>ed \<in> set es. fst (snd ed) \<le> s \<or> e \<le> fst ed"
  shows "wf_edits len pos (insert_edit (s, e, c) es)"
  using assms
proof (induction es arbitrary: pos)
  case Nil
  then show ?case by simp
next
  case (Cons ed es)
  from Cons.prems have 1: "pos \<le> fst ed" "fst ed < fst (snd ed)"
    "wf_edits len (fst (snd ed)) es" "fst (snd ed) \<le> s \<or> e \<le> fst ed"
    by (simp_all add: wf_edits_Cons)
  show ?case
  proof (cases "s \<le> fst ed")
    case True
    then have "e \<le> fst ed" using 1 by linarith
    then show ?thesis using True 1 Cons.prems(2,3) by (simp add: wf_edits_Cons)
  next
    case False
    then have b: "fst (snd ed) \<le> s" using 1 Cons.prems(3) by linarith
    have "wf_edits len (fst (snd ed)) (insert_edit (s, e, c) es)"
      using 1(3) b Cons.prems(3,4,5) by (intro Cons.IH) simp_all
    then show ?thesis using False 1 by (simp add: wf_edits_Cons)
  qed
qed

lemma wf_edits_positive: "wf_edits len pos es \<Longrightarrow> ed \<in> set es \<Longrightarrow> fst ed < fst (snd ed)"
proof (induction es arbitrary: pos)
  case Nil
  then show ?case by simp
next
  case (Cons x xs)
  then show ?case by (auto simp: wf_edits_Cons)
qed

lemma set_insert_edit: "set (insert_edit ed es) = insert ed (set es)"
  by (induction es) auto

lemma render_Cons:
  "render src pos (ed # es) =
     take (fst ed - pos) (drop pos src) @ snd (snd ed) @ render src (fst (snd ed)) es"
  by (cases ed) auto

lemma none_before:
  "wf_edits len pos es \<Longrightarrow> i \<le> pos \<Longrightarrow> filter (\<lambda>ed. fst (snd ed) \<le> i) es = []"
proof (induction es arbitrary: pos)
  case Nil
  then show ?case by simp
next
  case (Cons ed es)
  then have 1: "pos \<le> fst ed" "fst ed < fst (snd ed)" "wf_edits len (fst (snd ed)) es"
    by (simp_all add: wf_edits_Cons)
  have "filter (\<lambda>ed. fst (snd ed) \<le> i) es = []"
    using 1(3) by (rule Cons.IH) (use 1 Cons.prems(2) in linarith)
  then show ?case using 1 Cons.prems(2) by simp
qed

lemma removed_le:
  "wf_edits len pos es \<Longrightarrow> pos \<le> i \<Longrightarrow> removed es i \<le> i - pos"
proof (induction es arbitrary: pos)
  case Nil
  then show ?case by (simp add: removed_def)
next
  case (Cons ed es)
  then have 1: "pos \<le> fst ed" "fst ed < fst (snd ed)" "wf_edits len (fst (snd ed)) es"
    by (simp_all add: wf_edits_Cons)
  show ?case
  proof (cases "fst (snd ed) \<le> i")
    case True
    have "removed es i \<le> i - fst (snd ed)" using 1(3) True by (rule Cons.IH)
    moreover have "removed (ed # es) i = (fst (snd ed) - fst ed) + removed es i"
      using True by (simp add: removed_def)
    ultimately show ?thesis using 1 True by linarith
  next
    case False
    then have "filter (\<lambda>ed. fst (snd ed) \<le> i) es = []"
      using none_before [OF 1(3), of i] by simp
    then show ?thesis using False by (simp add: removed_def)
  qed
qed

lemma render_frame:
  assumes "wf_edits (length src) pos es" "pos \<le> i" "i < length src"
    and "\<forall>ed \<in> set es. i < fst ed \<or> fst (snd ed) \<le> i"
  shows "pos \<le> new_index es i \<and> render src pos es ! (new_index es i - pos) = src ! i"
  using assms
proof (induction es arbitrary: pos)
  case Nil
  then show ?case by (simp add: new_index_def added_def removed_def)
next
  case (Cons ed es)
  then have 1: "pos \<le> fst ed" "fst ed < fst (snd ed)"
    "wf_edits (length src) (fst (snd ed)) es"
    by (simp_all add: wf_edits_Cons)
  have le: "fst (snd ed) \<le> length src" using 1(3) by (rule wf_edits_le)
  have out: "i < fst ed \<or> fst (snd ed) \<le> i" using Cons.prems(4) by simp
  show ?case
  proof (cases "i < fst ed")
    case True
    have "filter (\<lambda>ed. fst (snd ed) \<le> i) es = []"
      using 1(3) by (rule none_before) (use True 1 in linarith)
    then have n: "new_index (ed # es) i = i"
      using True 1 by (simp add: new_index_def added_def removed_def)
    have "i - pos < length (take (fst ed - pos) (drop pos src))"
      using True 1 le Cons.prems(2) by simp
    then have "render src pos (ed # es) ! (i - pos)
               = take (fst ed - pos) (drop pos src) ! (i - pos)"
      by (simp only: render_Cons nth_append if_True)
    also have "\<dots> = src ! i"
      using True 1 le Cons.prems(2) by simp
    finally show ?thesis using n Cons.prems(2) by simp
  next
    case False
    then have b: "fst (snd ed) \<le> i" using out by simp
    have ih: "fst (snd ed) \<le> new_index es i
              \<and> render src (fst (snd ed)) es ! (new_index es i - fst (snd ed)) = src ! i"
      using 1(3) b Cons.prems(3) by (rule Cons.IH) (use Cons.prems(4) in simp)
    have r: "removed es i \<le> i - fst (snd ed)" using 1(3) b by (rule removed_le)
    have a: "added (ed # es) i = length (snd (snd ed)) + added es i"
      using b by (simp add: added_def)
    have m: "removed (ed # es) i = (fst (snd ed) - fst ed) + removed es i"
      using b by (simp add: removed_def)
    let ?pre = "take (fst ed - pos) (drop pos src)"
    have lp: "length ?pre = fst ed - pos" using 1 le by simp
    have idx: "new_index (ed # es) i - pos
               = length ?pre + (length (snd (snd ed)) + (new_index es i - fst (snd ed)))"
      using r a m b 1 lp by (simp add: new_index_def)
    have "render src pos (ed # es) ! (new_index (ed # es) i - pos)
          = render src (fst (snd ed)) es ! (new_index es i - fst (snd ed))"
      by (simp only: idx render_Cons nth_append_length_plus)
    moreover have "pos \<le> new_index (ed # es) i"
      using r a m b 1 by (simp add: new_index_def)
    ultimately show ?thesis using ih by simp
  qed
qed

lemma render_length:
  assumes "wf_edits (length src) pos es"
  shows "length (render src pos es) + removed es (length src)
         = (length src - pos) + added es (length src)"
  using assms
proof (induction es arbitrary: pos)
  case Nil
  then show ?case by (simp add: added_def removed_def)
next
  case (Cons ed es)
  then have 1: "pos \<le> fst ed" "fst ed < fst (snd ed)"
    "wf_edits (length src) (fst (snd ed)) es"
    by (simp_all add: wf_edits_Cons)
  have le: "fst (snd ed) \<le> length src" using 1(3) by (rule wf_edits_le)
  have ih: "length (render src (fst (snd ed)) es) + removed es (length src)
            = (length src - fst (snd ed)) + added es (length src)"
    using 1(3) by (rule Cons.IH)
  have a: "added (ed # es) (length src) = length (snd (snd ed)) + added es (length src)"
    using le by (simp add: added_def)
  have m: "removed (ed # es) (length src) = (fst (snd ed) - fst ed) + removed es (length src)"
    using le by (simp add: removed_def)
  have "length (render src pos (ed # es))
        = (fst ed - pos) + length (snd (snd ed)) + length (render src (fst (snd ed)) es)"
    using 1 le by (simp add: render_Cons)
  then show ?case using ih a m 1 le by linarith
qed

lemma walk_inv_refl: "walk_inv [] st st"
  by (simp add: walk_inv_def)

lemma walk_inv_trans:
  assumes "walk_inv rs st st'" "walk_inv rs' st' st''"
  shows "walk_inv (rs @ rs') st st''"
proof -
  have o: "original (fst st'') = original (fst st)"
    using assms by (simp add: walk_inv_def)
  have w: "wf_edits (length (original (fst st))) 0 (edits (fst st))
           \<longrightarrow> wf_edits (length (original (fst st))) 0 (edits (fst st''))"
    using assms by (simp add: walk_inv_def)
  have "edit_range ` set (edits (fst st''))
        \<subseteq> edit_range ` set (edits (fst st')) \<union> set rs'"
    using assms(2) by (simp add: walk_inv_def)
  moreover have "edit_range ` set (edits (fst st'))
        \<subseteq> edit_range ` set (edits (fst st)) \<union> set rs"
    using assms(1) by (simp add: walk_inv_def)
  ultimately have r: "edit_range ` set (edits (fst st''))
        \<subseteq> edit_range ` set (edits (fst st)) \<union> set (rs @ rs')"
    by (simp only: set_append) blast
  have e: "rs @ rs' = [] \<longrightarrow> fst st'' = fst st"
    using assms by (simp add: walk_inv_def)
  show ?thesis unfolding walk_inv_def using o w r e by blast
qed

lemma overwrite_inv:
  assumes "overwrite start end content ms = Inr ms'"
  shows "walk_inv [(start, end)] (ms, r) (ms', r)"
proof -
  let ?kept = "filter (\<lambda>ed. \<not> covered start end ed) (edits ms)"
  from assms have c: "end \<le> length (original ms)" "start < end"
    "\<not> list_ex (splits_edit start) (edits ms)" "\<not> list_ex (splits_edit end) (edits ms)"
    and ms': "ms' = ms\<lparr>edits := insert_edit (start, end, content) ?kept\<rparr>"
    by (simp_all add: overwrite_def split: if_splits)
  have wf: "wf_edits (length (original ms)) 0 (insert_edit (start, end, content) ?kept)"
    if w: "wf_edits (length (original ms)) 0 (edits ms)"
  proof (rule wf_edits_insert)
    show "wf_edits (length (original ms)) 0 ?kept" using w by (rule wf_edits_filter)
    show "\<forall>ed \<in> set ?kept. fst (snd ed) \<le> start \<or> end \<le> fst ed"
    proof
      fix ed assume in_kept: "ed \<in> set ?kept"
      then have mem: "ed \<in> set (edits ms)"
        and nc: "\<not> (start \<le> fst ed \<and> fst (snd ed) \<le> end)"
        by (simp_all add: covered_def case_prod_beta)
      have "fst ed < fst (snd ed)" using w mem by (rule wf_edits_positive)
      moreover have "\<not> (fst ed < start \<and> start < fst (snd ed))"
        "\<not> (fst ed < end \<and> end < fst (snd ed))"
        using c(3,4) mem by (auto simp: list_ex_iff splits_edit_def case_prod_beta)
      ultimately show "fst (snd ed) \<le> start \<or> end \<le> fst ed" using nc by linarith
    qed
  qed (use c in simp_all)
  have "set (insert_edit (start, end, content) ?kept)
        \<subseteq> insert (start, end, content) (set (edits ms))"
    by (auto simp: set_insert_edit)
  then have "edit_range ` set (insert_edit (start, end, content) ?kept)
        \<subseteq> insert (edit_range (start, end, content)) (edit_range ` set (edits ms))"
    by blast
  then have rng: "edit_range ` set (insert_edit (start, end, content) ?kept)
        \<subseteq> edit_range ` set (edits ms) \<union> set [(start, end)]"
    by (simp add: edit_range_def)
  show ?thesis
    unfolding walk_inv_def using wf rng by (simp add: ms')
qed

section \<open>The walk\<close>

lemma enter_cases:
  "(\<exists>err. enter n ms = Inl err) \<or> enter n ms = Inr ms
   \<or> (\<exists>start end content. marker_argument n = [(start, end)]
        \<and> enter n ms = overwrite start end content ms)"
proof (cases n)
  case (CallExpression s e callee arguments)
  show ?thesis
  proof (cases callee)
    case (Identifier cs ce name)
    show ?thesis
    proof (cases arguments)
      case Nil
      then show ?thesis using CallExpression Identifier by simp
    next
      case (Cons arg rest)
      show ?thesis
      proof (cases arg)
        case (ObjectExpression start "end" props)
        show ?thesis
        proof (cases "runtime_argument props")
          case (Inl err)
          then show ?thesis using CallExpression Identifier Cons ObjectExpression by simp
        next
          case (Inr content)
          then show ?thesis using CallExpression Identifier Cons ObjectExpression by auto
        qed
      qed (simp_all add: CallExpression Identifier Cons)
    qed
  qed (simp_all add: CallExpression)
qed simp_all

lemma call_enter_inv: "walk_inv (marker_argument n) st (call_enter n st)"
proof (cases "enter n (fst st)")
  case (Inl err)
  then show ?thesis unfolding call_enter_def walk_inv_def by simp
next
  case (Inr ms')
  then have ce: "call_enter n st = (ms', snd st)" by (simp add: call_enter_def)
  consider "ms' = fst st"
    | start "end" content where "marker_argument n = [(start, end)]"
        "overwrite start end content (fst st) = Inr ms'"
    using enter_cases [of n "fst st"] Inr by auto
  then show ?thesis
  proof cases
    case 1
    then show ?thesis unfolding ce walk_inv_def by simp
  next
    case 2
    have "walk_inv [(start, end)] (fst st, snd st) (ms', snd st)"
      using 2(2) by (rule overwrite_inv)
    then show ?thesis by (simp add: ce 2(1))
  qed
qed

lemma walk_invariant:
  "walk_inv (definition_arguments n) st (walk n st)"
  "walk_inv (definition_arguments_nodes ns) st1 (walk_nodes ns st1)"
  "walk_inv (definition_arguments_property p) st2 (walk_property p st2)"
  "walk_inv (definition_arguments_properties ps) st3 (walk_properties ps st3)"
proof (induction n st and ns st1 and p st2 and ps st3
       rule: walk_walk_nodes_walk_property_walk_properties.induct)
  case (1 s e v st)
  show ?case using call_enter_inv [of "Literal s e v" st] by simp
next
  case (2 s e name st)
  show ?case using call_enter_inv [of "Identifier s e name" st] by simp
next
  case (3 s e props st)
  show ?case
    using walk_inv_trans [OF call_enter_inv [of "ObjectExpression s e props" st] 3]
    by simp
next
  case (4 s e callee arguments st)
  show ?case
    using walk_inv_trans [OF walk_inv_trans
            [OF call_enter_inv [of "CallExpression s e callee arguments" st] 4(1)] 4(2)]
    by (simp del: marker_argument.simps)
next
  case (5 t s e children st)
  show ?case
    using walk_inv_trans [OF call_enter_inv [of "OtherNode t s e children" st] 5]
    by simp
next
  case (6 st)
  show ?case by (simp add: walk_inv_refl)
next
  case (7 n ns st)
  show ?case using walk_inv_trans [OF 7(1) 7(2)] by simp
next
  case (8 s e c k v st)
  show ?case using walk_inv_trans [OF 8(1) 8(2)] by simp
next
  case (9 s e a st)
  then show ?case by simp
next
  case (10 st)
  show ?case by (simp add: walk_inv_refl)
next
  case (11 p ps st)
  show ?case using walk_inv_trans [OF 11(1) 11(2)] by simp
qed

section \<open>The transform\<close>

lemmas eval_defs = transform_def fileRegex_test_def example_parse_def example_source_def
  example_program_def rewritten_source_def rewritten_program_def rewritten_members_def
  variable_source_def variable_program_def no_sourcemap_def example_options_def
  example_globalOptions_def call_enter_def runtime_argument_def buildRuntimeDefinition_def
  Object_fromEntries_def property_order falsy_def add_option_def assign_property_def quote_def
  escape_char_def overwrite_def new_MagicString_def hasChanged_def toString_def
  estreeToObject.simps generateMap_def

lemma fileRegex_test_iff: "fileRegex_test id' \<longleftrightarrow> (\<exists>p. id' = p @ ''.vue'')"
proof
  assume "fileRegex_test id'"
  then have "id' = take (length id' - 4) id' @ ''.vue''"
    by (metis append_take_drop_id fileRegex_test_def)
  then show "\<exists>p. id' = p @ ''.vue''" ..
next
  assume "\<exists>p. id' = p @ ''.vue''"
  then obtain p where "id' = p @ ''.vue''" ..
  then show "fileRegex_test id'" by (simp add: fileRegex_test_def)
qed

lemma unchanged_text: "\<not> hasChanged (new_MagicString source)"
  by (simp add: hasChanged_def toString_def new_MagicString_def)

lemma walk_from_source:
  "walk_inv (definition_arguments ast) (new_MagicString source, [])
     (walk ast (new_MagicString source, []))"
  by (rule walk_invariant(1))

text \<open>
  Claim C6. When the source does not contain the marker name, or when no call to the
  marker in the parsed file has an object literal as its first argument, the transform
  does not return new code: for a \<open>.vue\<close> file that contains the marker name it returns
  the source itself, otherwise it returns nothing, which leaves the file as it is. In
  both cases the code the bundler goes on with is the source.
\<close>

theorem no_rewrite_returns_source:
  assumes "\<not> string_includes source ''defineParagraph''
           \<or> (parse source = Inr ast \<and> definition_arguments ast = [])"
  shows "\<exists>rejected.
           transform parse nuxt source id'
             = Inr (if fileRegex_test id' \<and> string_includes source ''defineParagraph''
                    then ReturnSource source else ReturnUndefined, rejected)
           \<and> effective_code source
                 (if fileRegex_test id' \<and> string_includes source ''defineParagraph''
                  then ReturnSource source else ReturnUndefined) = source"
proof (cases "fileRegex_test id' \<and> string_includes source ''defineParagraph''")
  case False
  then show ?thesis by (auto simp: transform_def)
next
  case True
  then have p: "parse source = Inr ast" and d: "definition_arguments ast = []"
    using assms by simp_all
  have "fst (walk ast (new_MagicString source, [])) = new_MagicString source"
    using walk_from_source [of ast source] d by (simp add: walk_inv_def)
  then have "\<not> hasChanged (fst (walk ast (new_MagicString source, [])))"
    by (simp add: unchanged_text)
  then show ?thesis
    using True p by (auto simp: transform_def split: prod.splits)
qed

text \<open>
  Claim C8. When the transform returns new code, every replacement it made has the range
  of the first argument of a definition call whose argument is an object literal, the
  replaced ranges are in order and disjoint, every character of the source outside them
  is in the new code, at its offset moved by the length changes of the replacements
  before it, and the length of the new code is that of the source with the replaced
  ranges taken out and the replacements put in.
\<close>

theorem rewrite_frame:
  assumes "parse source = Inr ast"
    and "transform parse nuxt source id' = Inr (ReturnCode code m, rejected)"
  shows "edit_range ` set (replacements source ast) \<subseteq> set (definition_arguments ast)
       \<and> wf_edits (length source) 0 (replacements source ast)
       \<and> (\<forall>i < length source.
            (\<forall>ed \<in> set (replacements source ast). i < fst ed \<or> fst (snd ed) \<le> i)
            \<longrightarrow> code ! new_index (replacements source ast) i = source ! i)
       \<and> length code + removed (replacements source ast) (length source)
            = length source + added (replacements source ast) (length source)"
proof -
  let ?s = "fst (walk ast (new_MagicString source, []))"
  have inv: "walk_inv (definition_arguments ast) (new_MagicString source, [])
               (walk ast (new_MagicString source, []))"
    by (rule walk_from_source)
  have orig: "original ?s = source"
    using inv by (simp add: walk_inv_def new_MagicString_def)
  have wf: "wf_edits (length source) 0 (edits ?s)"
    using inv by (simp add: walk_inv_def new_MagicString_def)
  have rng: "edit_range ` set (edits ?s) \<subseteq> set (definition_arguments ast)"
    using inv by (simp add: walk_inv_def new_MagicString_def)
  have "code = toString ?s"
    using assms by (auto simp: transform_def split: if_splits prod.splits)
  then have code: "code = render source 0 (edits ?s)"
    by (simp add: toString_def orig)
  have frame: "code ! new_index (edits ?s) i = source ! i"
    if "i < length source" "\<forall>ed \<in> set (edits ?s). i < fst ed \<or> fst (snd ed) \<le> i" for i
    using render_frame [OF wf _ that] by (simp add: code)
  have len: "length code + removed (edits ?s) (length source)
             = length source + added (edits ?s) (length source)"
    using render_length [OF wf] by (simp add: code)
  show ?thesis
    unfolding replacements_def using rng wf frame len by blast
qed

text \<open>
  Claim C10. For an identifier that does not end in \<open>.vue\<close> the transform returns
  nothing, whatever the source contains and whatever the parser would say: the file is
  left as it is. The extraction side accepts the four extensions of
  \<open>POSSIBLE_EXTENSIONS\<close>.
\<close>

theorem only_vue_rewritten:
  assumes "\<not> (\<exists>p. id' = p @ ''.vue'')"
  shows "transform parse nuxt source id' = Inr (ReturnUndefined, [])
       \<and> effective_code source ReturnUndefined = source
       \<and> POSSIBLE_EXTENSIONS = [''.js'', ''.ts'', ''.vue'', ''.mjs'']"
  using assms by (simp add: transform_def fileRegex_test_iff POSSIBLE_EXTENSIONS_def)

lemma string_keyed_entry: "string_keyed p \<Longrightarrow> estreeEntry p = None"
  by (induction p rule: string_keyed.induct) simp_all

lemma string_keyed_entries:
  "list_all string_keyed props \<Longrightarrow> supported_entries props = []"
  by (induction props) (simp_all add: supported_entries_Cons string_keyed_entry)

lemma string_keyed_argument:
  assumes "list_all string_keyed props"
  shows "estreeToObject props = []
       \<and> runtime_argument props = Inr ''{}''
       \<and> enter (CallExpression s e (Identifier cs ce ''defineParagraph'')
                  (ObjectExpression start end props # rest)) ms
           = overwrite start end ''{}'' ms"
proof -
  have "estreeToObject props = []"
    using assms
    by (simp add: estreeToObject_supported string_keyed_entries Object_fromEntries_def)
  moreover from this have "runtime_argument props = Inr ''{}''"
    by (simp add: runtime_argument_def buildRuntimeDefinition_def)
  ultimately show ?thesis by simp
qed


lemma first_run: "transform example_parse no_sourcemap example_source ''Teaser.vue''
       = Inr (ReturnCode rewritten_source None, [])"
  by (simp add: eval_defs)

lemma second_run: "transform example_parse no_sourcemap rewritten_source ''Teaser.vue''
       = Inr (ReturnCode ''defineParagraph({})'' None, [])"
  by (simp add: eval_defs)

theorem no_rewrite_returns_source_witness:
  "\<not> string_includes ''export default {}'' ''defineParagraph''
   \<and> (\<exists>rejected. transform example_parse no_sourcemap ''export default {}'' ''Teaser.vue''
         = Inr (ReturnUndefined, rejected))
   \<and> string_includes variable_source ''defineParagraph''
   \<and> example_parse variable_source = Inr variable_program
   \<and> definition_arguments variable_program = []
   \<and> (\<exists>rejected. transform example_parse no_sourcemap variable_source ''Teaser.vue''
         = Inr (ReturnSource variable_source, rejected))"
proof -
  have a: "\<not> string_includes ''export default {}'' ''defineParagraph''"
    by simp
  have b: "string_includes variable_source ''defineParagraph''"
    by (simp add: variable_source_def)
  have c: "example_parse variable_source = Inr variable_program"
    by (simp add: example_parse_def variable_source_def example_source_def
          rewritten_source_def)
  have d: "definition_arguments variable_program = []"
    by (simp add: variable_program_def)
  have v: "fileRegex_test ''Teaser.vue''"
    by (simp add: fileRegex_test_def)
  show ?thesis
    using no_rewrite_returns_source
            [of "''export default {}''" example_parse variable_program no_sourcemap
                "''Teaser.vue''"]
          no_rewrite_returns_source
            [of variable_source example_parse variable_program no_sourcemap "''Teaser.vue''"]
          a b c d v
    by simp
qed

theorem rewrite_frame_witness:
  "example_parse example_source = Inr example_program
   \<and> transform example_parse no_sourcemap example_source ''Teaser.vue''
       = Inr (ReturnCode rewritten_source None, [])
   \<and> replacements example_source example_program
       = [(16, 102, ''{\"options\":{\"size\":{\"default\":\"medium\"}}}'')]
   \<and> definition_arguments example_program = [(16, 102)]
   \<and> new_index (replacements example_source example_program) 3 = 3
   \<and> rewritten_source ! new_index (replacements example_source example_program) 3
       = example_source ! 3
   \<and> new_index (replacements example_source example_program) 102 = 57
   \<and> rewritten_source ! new_index (replacements example_source example_program) 102
       = example_source ! 102
   \<and> length rewritten_source + 86 = length example_source + 41"
proof -
  have p: "example_parse example_source = Inr example_program"
    by (simp add: example_parse_def)
  have r: "replacements example_source example_program
       = [(16, 102, ''{\"options\":{\"size\":{\"default\":\"medium\"}}}'')]"
    by (simp add: replacements_def eval_defs)
  have d: "definition_arguments example_program = [(16, 102)]"
    by (simp add: example_program_def example_options_def example_globalOptions_def)
  have l: "length example_source = 103"
    by (simp add: example_source_def)
  have n: "new_index (replacements example_source example_program) 3 = 3"
    "new_index (replacements example_source example_program) 102 = 57"
    "removed (replacements example_source example_program) 103 = 86"
    "added (replacements example_source example_program) 103 = 41"
    by (simp_all add: r new_index_def added_def removed_def)
  have f: "\<forall>i < length example_source.
         (\<forall>ed \<in> set (replacements example_source example_program).
            i < fst ed \<or> fst (snd ed) \<le> i)
         \<longrightarrow> rewritten_source ! new_index (replacements example_source example_program) i
               = example_source ! i"
    and g: "length rewritten_source + removed (replacements example_source example_program)
              (length example_source)
            = length example_source + added (replacements example_source example_program)
                (length example_source)"
    using rewrite_frame [OF p first_run] by blast+
  have f3: "rewritten_source ! new_index (replacements example_source example_program) 3
            = example_source ! 3"
    using f [rule_format, of 3] by (simp add: l r)
  have f102: "rewritten_source ! new_index (replacements example_source example_program) 102
            = example_source ! 102"
    using f [rule_format, of 102] by (simp add: l r)
  have g': "length rewritten_source + 86 = length example_source + 41"
    using g by (simp only: l n)
  show ?thesis
    using p first_run r d n(1,2) f3 f102 g' by blast
qed

theorem only_vue_rewritten_witness:
  "\<not> (\<exists>p. ''Teaser.ts'' = p @ ''.vue'')
   \<and> transform example_parse no_sourcemap example_source ''Teaser.ts''
       = Inr (ReturnUndefined, [])"
proof -
  have "\<not> fileRegex_test ''Teaser.ts''"
    by (simp add: fileRegex_test_def)
  then have n: "\<not> (\<exists>p. ''Teaser.ts'' = p @ ''.vue'')"
    using fileRegex_test_iff [of "''Teaser.ts''"] by blast
  show ?thesis
    using only_vue_rewritten [OF n, of example_parse no_sourcemap example_source] n
    by simp
qed

text \<open>
  The claim as it is written fails on the specification's own example: the first run
  writes the runtime definition, the second run replaces it by \<open>{}\<close>.
\<close>

theorem rerun_changes_output_counterexample:
  "transform example_parse no_sourcemap example_source ''Teaser.vue''
     = Inr (ReturnCode rewritten_source None, [])
   \<and> transform example_parse no_sourcemap rewritten_source ''Teaser.vue''
     = Inr (ReturnCode ''defineParagraph({})'' None, [])
   \<and> ''defineParagraph({})'' \<noteq> rewritten_source"
  using first_run second_run by (simp add: rewritten_source_def)

text \<open>
  Claim C1 at the specification's example. The array of \<open>globalOptions\<close> is lost in
  \<open>estreeToObject\<close>, before \<open>buildRuntimeDefinition\<close> can copy it: the argument the
  transform writes has the option default and no \<open>globalOptions\<close>.
\<close>

theorem global_options_dropped:
  "estreeToObject [example_options, example_globalOptions]
     = [(''options'', JObject [(''size'', JObject
          [(''type'', JLit (LString ''radios'')),
           (''default'', JLit (LString ''medium''))])])]
   \<and> buildRuntimeDefinition (estreeToObject [example_options, example_globalOptions])
     = Inr [(''options'', JObject [(''size'', JObject
              [(''default'', JLit (LString ''medium''))])])]
   \<and> runtime_argument [example_options, example_globalOptions]
     = Inr ''{\"options\":{\"size\":{\"default\":\"medium\"}}}''
   \<and> transform example_parse no_sourcemap example_source ''Teaser.vue''
     = Inr (ReturnCode
              ''defineParagraph({\"options\":{\"size\":{\"default\":\"medium\"}}})'' None, [])"
  using first_run by (simp add: eval_defs)

section \<open>Running the transform on its own output\<close>

lemma rerun_inv_refl: "rerun_inv R [] st st"
  by (simp add: rerun_inv_def)

lemma rerun_inv_trans:
  assumes "rerun_inv R rs st st'" "rerun_inv R rs' st' st''"
  shows "rerun_inv R (rs @ rs') st st''"
proof -
  have "rerun_state R st'' \<and> snd st'' = snd st
        \<and> original (fst st'') = original (fst st)
        \<and> edit_range ` set (edits (fst st''))
            = edit_range ` set (edits (fst st)) \<union> set (rs @ rs')"
    if s: "rerun_state R st"
  proof -
    have 1: "rerun_state R st'" "snd st' = snd st" "original (fst st') = original (fst st)"
      "edit_range ` set (edits (fst st')) = edit_range ` set (edits (fst st)) \<union> set rs"
      using assms(1) s by (simp_all add: rerun_inv_def)
    have 2: "rerun_state R st''" "snd st'' = snd st'"
      "original (fst st'') = original (fst st')"
      "edit_range ` set (edits (fst st'')) = edit_range ` set (edits (fst st')) \<union> set rs'"
      using assms(2) 1(1) by (simp_all add: rerun_inv_def)
    show ?thesis using 1 2 by (simp add: Un_assoc)
  qed
  then show ?thesis by (simp only: rerun_inv_def) blast
qed

lemma overwrite_rerun:
  assumes st: "rerun_state R (ms, rej)" and r: "(a, b) \<in> R"
  shows "\<exists>ms'. overwrite a b ''{}'' ms = Inr ms' \<and> rerun_inv R [(a, b)] (ms, rej) (ms', rej)"
proof -
  let ?len = "length (original ms)"
  let ?kept = "filter (\<lambda>ed. \<not> covered a b ed) (edits ms)"
  let ?ms' = "ms\<lparr>edits := insert_edit (a, b, ''{}'') ?kept\<rparr>"
  have wf: "wf_edits ?len 0 (edits ms)"
    and sub: "edit_range ` set (edits ms) \<subseteq> R"
    and con: "\<forall>ed \<in> set (edits ms). snd (snd ed) = ''{}''"
    and sep: "separate_arguments ?len R"
    using st by (simp_all add: rerun_state_def)
  have ab: "a + 2 \<le> b" "b \<le> ?len"
    using sep r by (auto simp: separate_arguments_def)
  have rel: "(a, b) = edit_range ed \<or> b \<le> fst ed \<or> fst (snd ed) \<le> a"
    if "ed \<in> set (edits ms)" for ed
  proof -
    have "edit_range ed \<in> R" using sub that by blast
    then have "(a, b) = edit_range ed \<or> snd (a, b) \<le> fst (edit_range ed)
               \<or> snd (edit_range ed) \<le> fst (a, b)"
      using sep r unfolding separate_arguments_def by blast
    then show ?thesis by (simp add: edit_range_def)
  qed
  have pos: "fst ed < fst (snd ed)" if "ed \<in> set (edits ms)" for ed
    using wf that by (rule wf_edits_positive)
  have ns: "\<not> splits_edit a ed \<and> \<not> splits_edit b ed" if "ed \<in> set (edits ms)" for ed
    using rel [OF that] ab
    by (auto simp: splits_edit_def edit_range_def case_prod_beta)
  have ow: "overwrite a b ''{}'' ms = Inr ?ms'"
    using ab ns by (auto simp: overwrite_def list_ex_iff)
  have inv: "walk_inv [(a, b)] (ms, rej) (?ms', rej)"
    using ow by (rule overwrite_inv)
  have wf': "wf_edits ?len 0 (edits ?ms')"
    using inv wf by (simp add: walk_inv_def)
  have cov: "edit_range ed = (a, b)" if "ed \<in> set (edits ms)" "covered a b ed" for ed
    using rel [OF that(1)] pos [OF that(1)] that(2) ab
    by (auto simp: covered_def edit_range_def case_prod_beta)
  have "set (edits ?ms') = insert (a, b, ''{}'') {ed \<in> set (edits ms). \<not> covered a b ed}"
    by (simp add: set_insert_edit)
  then have rng: "edit_range ` set (edits ?ms') = edit_range ` set (edits ms) \<union> set [(a, b)]"
    using cov by (auto simp: edit_range_def image_iff)
  have con': "\<forall>ed \<in> set (edits ?ms'). snd (snd ed) = ''{}''"
    using con by (auto simp: set_insert_edit)
  have "rerun_state R (?ms', rej)"
    using wf' rng sub r con' sep by (simp add: rerun_state_def)
  then have "rerun_inv R [(a, b)] (ms, rej) (?ms', rej)"
    using rng by (simp add: rerun_inv_def)
  then show ?thesis using ow by blast
qed


lemma enter_rerun:
  assumes "rerun_call n"
  shows "(marker_argument n = [] \<and> enter n ms = Inr ms)
       \<or> (\<exists>a b. marker_argument n = [(a, b)] \<and> enter n ms = overwrite a b ''{}'' ms)"
proof (cases n)
  case (CallExpression s e callee arguments)
  show ?thesis
  proof (cases callee)
    case (Identifier cs ce name)
    show ?thesis
    proof (cases arguments)
      case Nil
      then show ?thesis using assms CallExpression Identifier by (simp split: if_splits)
    next
      case (Cons arg rest)
      show ?thesis
      proof (cases arg)
        case (ObjectExpression start "end" props)
        show ?thesis
        proof (cases "name = ''defineParagraph''")
          case True
          then have "list_all string_keyed props"
            using assms CallExpression Identifier Cons ObjectExpression by simp
          then have "runtime_argument props = Inr ''{}''"
            using string_keyed_argument by blast
          then show ?thesis
            using True CallExpression Identifier Cons ObjectExpression by simp
        next
          case False
          then show ?thesis
            using CallExpression Identifier Cons ObjectExpression by simp
        qed
      qed (simp_all add: CallExpression Identifier Cons)
    qed
  qed (simp_all add: CallExpression)
qed simp_all

lemma call_enter_rerun:
  assumes "rerun_call n" "set (marker_argument n) \<subseteq> R"
  shows "rerun_inv R (marker_argument n) st (call_enter n st)"
proof -
  consider "marker_argument n = []" "enter n (fst st) = Inr (fst st)"
    | a b where "marker_argument n = [(a, b)]"
        "enter n (fst st) = overwrite a b ''{}'' (fst st)"
    using enter_rerun [OF assms(1), of "fst st"] by blast
  then show ?thesis
  proof cases
    case 1
    then show ?thesis by (simp add: call_enter_def rerun_inv_def)
  next
    case 2
    show ?thesis
      unfolding rerun_inv_def
    proof
      assume s: "rerun_state R st"
      then have s': "rerun_state R (fst st, snd st)" by simp
      have "(a, b) \<in> R" using assms(2) 2(1) by simp
      then obtain ms' where ow: "overwrite a b ''{}'' (fst st) = Inr ms'"
        and inv: "rerun_inv R [(a, b)] (fst st, snd st) (ms', snd st)"
        using overwrite_rerun [OF s'] by blast
      have ce: "call_enter n st = (ms', snd st)"
        using 2(2) ow by (simp add: call_enter_def)
      show "rerun_state R (call_enter n st) \<and> snd (call_enter n st) = snd st
            \<and> original (fst (call_enter n st)) = original (fst st)
            \<and> edit_range ` set (edits (fst (call_enter n st)))
                = edit_range ` set (edits (fst st)) \<union> set (marker_argument n)"
        using inv s' by (simp add: ce 2(1) rerun_inv_def)
    qed
  qed
qed

lemma walk_rerun:
  "rerun_shaped n \<longrightarrow> set (definition_arguments n) \<subseteq> R
     \<longrightarrow> rerun_inv R (definition_arguments n) st (walk n st)"
  "rerun_shaped_nodes ns \<longrightarrow> set (definition_arguments_nodes ns) \<subseteq> R
     \<longrightarrow> rerun_inv R (definition_arguments_nodes ns) st1 (walk_nodes ns st1)"
  "rerun_shaped_property p \<longrightarrow> set (definition_arguments_property p) \<subseteq> R
     \<longrightarrow> rerun_inv R (definition_arguments_property p) st2 (walk_property p st2)"
  "rerun_shaped_properties ps \<longrightarrow> set (definition_arguments_properties ps) \<subseteq> R
     \<longrightarrow> rerun_inv R (definition_arguments_properties ps) st3 (walk_properties ps st3)"
proof (induction n st and ns st1 and p st2 and ps st3
       rule: walk_walk_nodes_walk_property_walk_properties.induct)
  case (1 s e v st)
  show ?case using call_enter_rerun [of "Literal s e v" R st] by simp
next
  case (2 s e name st)
  show ?case using call_enter_rerun [of "Identifier s e name" R st] by simp
next
  case (3 s e props st)
  show ?case
  proof (intro impI)
    assume a: "rerun_shaped (ObjectExpression s e props)"
      "set (definition_arguments (ObjectExpression s e props)) \<subseteq> R"
    have 0: "rerun_inv R (marker_argument (ObjectExpression s e props)) st
               (call_enter (ObjectExpression s e props) st)"
      by (rule call_enter_rerun) simp_all
    have 1: "rerun_inv R (definition_arguments_properties props)
               (call_enter (ObjectExpression s e props) st)
               (walk_properties props (call_enter (ObjectExpression s e props) st))"
      using 3 a by simp
    show "rerun_inv R (definition_arguments (ObjectExpression s e props)) st
            (walk (ObjectExpression s e props) st)"
      using rerun_inv_trans [OF 0 1] by simp
  qed
next
  case (4 s e callee arguments st)
  show ?case
  proof (intro impI)
    let ?n = "CallExpression s e callee arguments"
    assume a: "rerun_shaped ?n" "set (definition_arguments ?n) \<subseteq> R"
    have sh: "rerun_call ?n" "rerun_shaped callee" "rerun_shaped_nodes arguments"
      using a(1) by (simp_all del: rerun_call.simps)
    have su: "set (marker_argument ?n) \<subseteq> R" "set (definition_arguments callee) \<subseteq> R"
      "set (definition_arguments_nodes arguments) \<subseteq> R"
      using a(2) by (simp_all del: marker_argument.simps)
    have 0: "rerun_inv R (marker_argument ?n) st (call_enter ?n st)"
      using sh(1) su(1) by (rule call_enter_rerun)
    have 1: "rerun_inv R (definition_arguments callee) (call_enter ?n st)
               (walk callee (call_enter ?n st))"
      using 4(1) sh(2) su(2) by blast
    have 2: "rerun_inv R (definition_arguments_nodes arguments)
               (walk callee (call_enter ?n st))
               (walk_nodes arguments (walk callee (call_enter ?n st)))"
      using 4(2) sh(3) su(3) by blast
    show "rerun_inv R (definition_arguments ?n) st (walk ?n st)"
      using rerun_inv_trans [OF rerun_inv_trans [OF 0 1] 2]
      by (simp del: marker_argument.simps)
  qed
next
  case (5 t s e children st)
  show ?case
  proof (intro impI)
    assume a: "rerun_shaped (OtherNode t s e children)"
      "set (definition_arguments (OtherNode t s e children)) \<subseteq> R"
    have 0: "rerun_inv R (marker_argument (OtherNode t s e children)) st
               (call_enter (OtherNode t s e children) st)"
      by (rule call_enter_rerun) simp_all
    have 1: "rerun_inv R (definition_arguments_nodes children)
               (call_enter (OtherNode t s e children) st)
               (walk_nodes children (call_enter (OtherNode t s e children) st))"
      using 5 a by simp
    show "rerun_inv R (definition_arguments (OtherNode t s e children)) st
            (walk (OtherNode t s e children) st)"
      using rerun_inv_trans [OF 0 1] by simp
  qed
next
  case (6 st)
  show ?case by (simp add: rerun_inv_refl)
next
  case (7 n ns st)
  show ?case
  proof (intro impI)
    assume a: "rerun_shaped_nodes (n # ns)" "set (definition_arguments_nodes (n # ns)) \<subseteq> R"
    have 0: "rerun_inv R (definition_arguments n) st (walk n st)"
      using 7(1) a by simp
    have 1: "rerun_inv R (definition_arguments_nodes ns) (walk n st)
               (walk_nodes ns (walk n st))"
      using 7(2) a by simp
    show "rerun_inv R (definition_arguments_nodes (n # ns)) st (walk_nodes (n # ns) st)"
      using rerun_inv_trans [OF 0 1] by simp
  qed
next
  case (8 s e c k v st)
  show ?case
  proof (intro impI)
    assume a: "rerun_shaped_property (Property s e c k v)"
      "set (definition_arguments_property (Property s e c k v)) \<subseteq> R"
    have 0: "rerun_inv R (definition_arguments k) st (walk k st)"
      using 8(1) a by simp
    have 1: "rerun_inv R (definition_arguments v) (walk k st) (walk v (walk k st))"
      using 8(2) a by simp
    show "rerun_inv R (definition_arguments_property (Property s e c k v)) st
            (walk_property (Property s e c k v) st)"
      using rerun_inv_trans [OF 0 1] by simp
  qed
next
  case (9 s e a st)
  then show ?case by simp
next
  case (10 st)
  show ?case by (simp add: rerun_inv_refl)
next
  case (11 p ps st)
  show ?case
  proof (intro impI)
    assume a: "rerun_shaped_properties (p # ps)"
      "set (definition_arguments_properties (p # ps)) \<subseteq> R"
    have 0: "rerun_inv R (definition_arguments_property p) st (walk_property p st)"
      using 11(1) a by simp
    have 1: "rerun_inv R (definition_arguments_properties ps) (walk_property p st)
               (walk_properties ps (walk_property p st))"
      using 11(2) a by simp
    show "rerun_inv R (definition_arguments_properties (p # ps)) st
            (walk_properties (p # ps) st)"
      using rerun_inv_trans [OF 0 1] by simp
  qed
qed


lemma wf_edits_within:
  "wf_edits len pos es \<Longrightarrow> ed \<in> set es \<Longrightarrow> pos \<le> fst ed \<and> fst (snd ed) \<le> len"
proof (induction es arbitrary: pos)
  case Nil
  then show ?case by simp
next
  case (Cons x xs)
  then have 1: "pos \<le> fst x" "fst x < fst (snd x)" "wf_edits len (fst (snd x)) xs"
    by (simp_all add: wf_edits_Cons)
  show ?case
  proof (cases "ed = x")
    case True
    then show ?thesis using 1 wf_edits_le [OF 1(3)] by simp
  next
    case False
    then have "ed \<in> set xs" using Cons.prems(2) by simp
    then have "fst (snd x) \<le> fst ed \<and> fst (snd ed) \<le> len"
      using Cons.IH [OF 1(3)] by simp
    then show ?thesis using 1 by linarith
  qed
qed

lemma render_same:
  assumes "wf_edits (length src) pos es"
    and "\<forall>ed \<in> set es. snd (snd ed) = take (fst (snd ed) - fst ed) (drop (fst ed) src)"
  shows "render src pos es = drop pos src"
  using assms
proof (induction es arbitrary: pos)
  case Nil
  show ?case by simp
next
  case (Cons ed es)
  then have 1: "pos \<le> fst ed" "fst ed < fst (snd ed)"
    "wf_edits (length src) (fst (snd ed)) es"
    by (simp_all add: wf_edits_Cons)
  have c: "snd (snd ed) = take (fst (snd ed) - fst ed) (drop (fst ed) src)"
    using Cons.prems(2) by simp
  have ih: "render src (fst (snd ed)) es = drop (fst (snd ed)) src"
    using 1(3) Cons.prems(2) by (intro Cons.IH) simp_all
  have "drop (fst ed) src
        = take (fst (snd ed) - fst ed) (drop (fst ed) src)
          @ drop (fst (snd ed) - fst ed) (drop (fst ed) src)"
    by (rule append_take_drop_id [symmetric])
  also have "drop (fst (snd ed) - fst ed) (drop (fst ed) src) = drop (fst (snd ed)) src"
  proof -
    have "fst (snd ed) - fst ed + fst ed = fst (snd ed)" using 1(2) by simp
    then show ?thesis by (simp only: drop_drop)
  qed
  finally have mid: "drop (fst ed) src = snd (snd ed) @ drop (fst (snd ed)) src"
    using c by simp
  have "drop pos src = take (fst ed - pos) (drop pos src) @ drop (fst ed - pos) (drop pos src)"
    by (rule append_take_drop_id [symmetric])
  also have "drop (fst ed - pos) (drop pos src) = drop (fst ed) src"
  proof -
    have "fst ed - pos + pos = fst ed" using 1(1) by simp
    then show ?thesis by (simp only: drop_drop)
  qed
  finally have "drop pos src
        = take (fst ed - pos) (drop pos src) @ snd (snd ed) @ drop (fst (snd ed)) src"
    using mid by simp
  then show ?case by (simp add: render_Cons ih)
qed

lemma filter_all: "\<forall>x \<in> set xs. P x \<Longrightarrow> filter P xs = xs"
  by (induction xs) simp_all

lemma sum_list_less:
  fixes f g :: "'a \<Rightarrow> nat"
  assumes "\<forall>x \<in> set xs. f x \<le> g x" "\<exists>x \<in> set xs. f x < g x"
  shows "sum_list (map f xs) < sum_list (map g xs)"
  using assms
proof (induction xs)
  case Nil
  then show ?case by simp
next
  case (Cons x xs)
  have le: "sum_list (map f xs) \<le> sum_list (map g xs)"
    using Cons.prems(1) by (intro sum_list_mono) simp
  show ?case
  proof (cases "f x < g x")
    case True
    then show ?thesis using le by simp
  next
    case False
    then have "\<exists>y \<in> set xs. f y < g y" using Cons.prems(2) by auto
    then have "sum_list (map f xs) < sum_list (map g xs)"
      using Cons.IH Cons.prems(1) by simp
    moreover have "f x \<le> g x" using Cons.prems(1) by simp
    ultimately show ?thesis by simp
  qed
qed

lemma render_shorter:
  assumes wf: "wf_edits (length src) 0 es"
    and le: "\<forall>ed \<in> set es. length (snd (snd ed)) \<le> fst (snd ed) - fst ed"
    and lt: "\<exists>ed \<in> set es. length (snd (snd ed)) < fst (snd ed) - fst ed"
  shows "length (render src 0 es) < length src"
proof -
  have all: "filter (\<lambda>ed. fst (snd ed) \<le> length src) es = es"
    using wf_edits_within [OF wf] by (intro filter_all) blast
  have "added es (length src) < removed es (length src)"
    unfolding added_def removed_def all using le lt by (rule sum_list_less)
  then show ?thesis using render_length [OF wf] by simp
qed

text \<open>
  Claim C2, as the code has it. Take a file a run has already rewritten: a \<open>.vue\<close> file
  that contains the marker name and parses, in which every call to the marker has a
  first argument, every object-literal first argument has only string-literal keys (the
  JSON the run wrote), and these arguments hold at least their two braces, end inside
  the text and do not overlap. A further run throws nothing and rejects nothing, and it
  is not a no-op: it replaces exactly these arguments, each by \<open>{}\<close>. It returns the
  source when every such argument already reads \<open>{}\<close>, and new code when one of them is
  longer than \<open>{}\<close>.
\<close>

theorem rerun_replaces_arguments:
  assumes "fileRegex_test id'" and "string_includes source ''defineParagraph''"
    and "parse source = Inr ast" and "rerun_shaped ast"
    and "separate_arguments (length source) (set (definition_arguments ast))"
  shows "transform parse nuxt source id'
           = Inr (if render source 0 (replacements source ast) = source
                  then ReturnSource source
                  else ReturnCode (render source 0 (replacements source ast))
                         (if sourcemap_client nuxt \<or> sourcemap_server nuxt
                          then Some (SourceMap (replacements source ast)) else None),
                  [])
       \<and> wf_edits (length source) 0 (replacements source ast)
       \<and> edit_range ` set (replacements source ast) = set (definition_arguments ast)
       \<and> (\<forall>ed \<in> set (replacements source ast). snd (snd ed) = ''{}'')
       \<and> ((\<forall>r \<in> set (definition_arguments ast).
              take (snd r - fst r) (drop (fst r) source) = ''{}'')
            \<longrightarrow> render source 0 (replacements source ast) = source)
       \<and> ((\<exists>r \<in> set (definition_arguments ast). fst r + 2 < snd r)
            \<longrightarrow> render source 0 (replacements source ast) \<noteq> source)"
proof -
  let ?R = "set (definition_arguments ast)"
  let ?st = "walk ast (new_MagicString source, [])"
  let ?es = "replacements source ast"
  have s0: "rerun_state ?R (new_MagicString source, [])"
    using assms(5) by (simp add: rerun_state_def new_MagicString_def)
  have "rerun_inv ?R (definition_arguments ast) (new_MagicString source, []) ?st"
    using walk_rerun(1) [of ast ?R "(new_MagicString source, [])"] assms(4) by simp
  then have st: "rerun_state ?R ?st" and rej: "snd ?st = []"
    and orig: "original (fst ?st) = source"
    and rng: "edit_range ` set (edits (fst ?st)) = ?R"
    using s0 by (simp_all add: rerun_inv_def new_MagicString_def)
  have es: "edits (fst ?st) = ?es" by (simp add: replacements_def)
  have wf: "wf_edits (length source) 0 ?es"
    and con: "\<forall>ed \<in> set ?es. snd (snd ed) = ''{}''"
    using st by (simp_all add: rerun_state_def orig es)
  have rng': "edit_range ` set ?es = ?R" using rng by (simp only: es)
  have ts: "toString (fst ?st) = render source 0 ?es"
    by (simp add: toString_def orig es)
  have tr: "transform parse nuxt source id'
           = Inr (if render source 0 ?es = source
                  then ReturnSource source
                  else ReturnCode (render source 0 ?es)
                         (if sourcemap_client nuxt \<or> sourcemap_server nuxt
                          then Some (SourceMap ?es) else None),
                  [])"
    using assms(1,2,3) rej ts orig es
    by (auto simp: transform_def hasChanged_def generateMap_def split: prod.splits)
  have width: "fst ed + 2 \<le> fst (snd ed)" if "ed \<in> set ?es" for ed
  proof -
    have "edit_range ed \<in> ?R" using rng' that by blast
    then show ?thesis
      using assms(5) by (auto simp: separate_arguments_def edit_range_def)
  qed
  have same: "render source 0 ?es = source"
    if a: "\<forall>r \<in> ?R. take (snd r - fst r) (drop (fst r) source) = ''{}''"
  proof -
    have "snd (snd ed) = take (fst (snd ed) - fst ed) (drop (fst ed) source)"
      if m: "ed \<in> set ?es" for ed
    proof -
      have "edit_range ed \<in> ?R" using rng' m by blast
      then have "take (fst (snd ed) - fst ed) (drop (fst ed) source) = ''{}''"
        using a by (auto simp: edit_range_def)
      then show ?thesis using con m by simp
    qed
    then have "render source 0 ?es = drop 0 source"
      using wf by (intro render_same) blast+
    then show ?thesis by simp
  qed
  have differs: "render source 0 ?es \<noteq> source"
    if a: "\<exists>r \<in> ?R. fst r + 2 < snd r"
  proof -
    obtain r where r: "r \<in> ?R" "fst r + 2 < snd r" using a by blast
    then have "r \<in> edit_range ` set ?es" using rng' by simp
    then obtain ed where m: "ed \<in> set ?es" and "r = edit_range ed" by blast
    then have w: "fst ed + 2 < fst (snd ed)" using r(2) by (simp add: edit_range_def)
    have le: "\<forall>ed \<in> set ?es. length (snd (snd ed)) \<le> fst (snd ed) - fst ed"
      using con width by fastforce
    have lt: "\<exists>ed \<in> set ?es. length (snd (snd ed)) < fst (snd ed) - fst ed"
      using con m w by (intro bexI [of _ ed]) simp_all
    have "length (render source 0 ?es) < length source"
      using wf le lt by (rule render_shorter)
    then show ?thesis by auto
  qed
  show ?thesis using tr wf rng' con same differs by blast
qed

theorem rerun_replaces_arguments_witness:
  "fileRegex_test ''Teaser.vue''
   \<and> string_includes rewritten_source ''defineParagraph''
   \<and> rerun_parse rewritten_source = Inr rewritten_program
   \<and> rerun_shaped rewritten_program
   \<and> separate_arguments (length rewritten_source)
        (set (definition_arguments rewritten_program))
   \<and> replacements rewritten_source rewritten_program = [(16, 57, ''{}'')]
   \<and> transform rerun_parse no_sourcemap rewritten_source ''Teaser.vue''
       = Inr (ReturnCode minimal_source None, [])
   \<and> string_includes minimal_source ''defineParagraph''
   \<and> rerun_parse minimal_source = Inr minimal_program
   \<and> rerun_shaped minimal_program
   \<and> separate_arguments (length minimal_source) (set (definition_arguments minimal_program))
   \<and> transform rerun_parse no_sourcemap minimal_source ''Teaser.vue''
       = Inr (ReturnSource minimal_source, [])"
proof -
  have v: "fileRegex_test ''Teaser.vue''"
    by (simp add: fileRegex_test_def)
  have i1: "string_includes rewritten_source ''defineParagraph''"
    by (simp add: rewritten_source_def)
  have p1: "rerun_parse rewritten_source = Inr rewritten_program"
    by (simp add: rerun_parse_def)
  have h1: "rerun_shaped rewritten_program"
    by (simp add: rewritten_program_def rewritten_members_def)
  have d1: "definition_arguments rewritten_program = [(16, 57)]"
    by (simp add: rewritten_program_def rewritten_members_def)
  have l1: "length rewritten_source = 58"
    by (simp add: rewritten_source_def)
  have a1: "separate_arguments (length rewritten_source)
              (set (definition_arguments rewritten_program))"
    by (simp add: d1 l1 separate_arguments_def)
  have i2: "string_includes minimal_source ''defineParagraph''"
    by (simp add: minimal_source_def)
  have p2: "rerun_parse minimal_source = Inr minimal_program"
    by (simp add: rerun_parse_def minimal_source_def rewritten_source_def)
  have h2: "rerun_shaped minimal_program"
    by (simp add: minimal_program_def)
  have d2: "definition_arguments minimal_program = [(16, 18)]"
    by (simp add: minimal_program_def)
  have l2: "length minimal_source = 19"
    by (simp add: minimal_source_def)
  have a2: "separate_arguments (length minimal_source)
              (set (definition_arguments minimal_program))"
    by (simp add: d2 l2 separate_arguments_def)
  note t1 = rerun_replaces_arguments
    [where parse = rerun_parse and nuxt = no_sourcemap, OF v i1 p1 h1 a1]
  note t2 = rerun_replaces_arguments
    [where parse = rerun_parse and nuxt = no_sourcemap, OF v i2 p2 h2 a2]
  have w1: "wf_edits 58 0 (replacements rewritten_source rewritten_program)"
    and r1: "edit_range ` set (replacements rewritten_source rewritten_program) = {(16, 57)}"
    and c1: "\<forall>ed \<in> set (replacements rewritten_source rewritten_program).
               snd (snd ed) = ''{}''"
    using t1 by (simp_all add: d1 l1)
  have e1: "replacements rewritten_source rewritten_program = [(16, 57, ''{}'')]"
  proof (cases "replacements rewritten_source rewritten_program")
    case Nil
    then show ?thesis using r1 by simp
  next
    case (Cons x xs)
    have x: "x = (16, 57, ''{}'')"
      using r1 c1 Cons by (cases x) (auto simp: edit_range_def)
    have "xs = []"
    proof (cases xs)
      case (Cons y ys)
      then have "edit_range y = (16, 57)" using r1 \<open>replacements _ _ = x # xs\<close> by auto
      moreover have "57 \<le> fst y"
        using w1 \<open>replacements _ _ = x # xs\<close> Cons x by (simp add: wf_edits_Cons)
      ultimately show ?thesis by (simp add: edit_range_def)
    qed simp
    then show ?thesis using Cons x by simp
  qed
  have rd: "render rewritten_source 0 [(16, 57, ''{}'')] = minimal_source"
    by (simp add: rewritten_source_def minimal_source_def)
  have ne: "minimal_source \<noteq> rewritten_source"
    by (simp add: rewritten_source_def minimal_source_def)
  have o1: "transform rerun_parse no_sourcemap rewritten_source ''Teaser.vue''
       = Inr (ReturnCode minimal_source None, [])"
    using t1 ne unfolding e1 rd by (simp add: no_sourcemap_def)
  have same: "render minimal_source 0 (replacements minimal_source minimal_program)
              = minimal_source"
    using t2 by (simp add: d2 minimal_source_def)
  have o2: "transform rerun_parse no_sourcemap minimal_source ''Teaser.vue''
       = Inr (ReturnSource minimal_source, [])"
    using t2 by (simp add: same)
  show ?thesis using v i1 p1 h1 a1 e1 o1 i2 p2 h2 a2 o2 by blast
qed

section \<open>Chunk names, field list types and default options\<close>

lemma indexOf_notin: "v \<notin> set xs \<Longrightarrow> indexOf xs v = - 1"
  by (induction xs) (auto simp: Let_def)

lemma indexOf_in: "v \<in> set xs \<Longrightarrow> 0 \<le> indexOf xs v \<and> indexOf xs v < int (length xs)"
  by (induction xs) (auto simp: Let_def)

lemma indexOf_append:
  "indexOf (ps @ qs) v =
     (if v \<in> set ps then indexOf ps v
      else if v \<in> set qs then int (length ps) + indexOf qs v else - 1)"
proof (induction ps)
  case Nil
  then show ?case by (simp add: indexOf_notin)
next
  case (Cons p ps)
  show ?case
  proof (cases "p = v")
    case True
    then show ?thesis by simp
  next
    case False
    then show ?thesis
      using Cons indexOf_in [of v ps] indexOf_in [of v qs]
      by (auto simp: Let_def)
  qed
qed

lemma indexOf_at: "indexOf (ps @ x # xs) x = int (length ps) \<longleftrightarrow> x \<notin> set ps"
  using indexOf_in [of x ps] by (auto simp: indexOf_append)

lemma filter_indexed_from:
  "map fst (filter (\<lambda>(x, i). indexOf (ps @ xs) x = int i)
              (zip xs [length ps..<length ps + length xs]))
   = filter (\<lambda>y. y \<notin> set ps) (first_occurrences xs)"
proof (induction xs arbitrary: ps)
  case Nil
  show ?case by simp
next
  case (Cons x xs)
  have up: "[length ps..<length ps + length (x # xs)]
            = length ps # [length (ps @ [x])..<length (ps @ [x]) + length xs]"
    by (subst upt_rec) simp
  have ih: "map fst (filter (\<lambda>(y, i). indexOf ((ps @ [x]) @ xs) y = int i)
              (zip xs [length (ps @ [x])..<length (ps @ [x]) + length xs]))
            = filter (\<lambda>y. y \<notin> set (ps @ [x])) (first_occurrences xs)"
    by (rule Cons.IH)
  have rest: "filter (\<lambda>y. y \<notin> set ps) (filter (\<lambda>y. y \<noteq> x) (first_occurrences xs))
              = filter (\<lambda>y. y \<notin> set (ps @ [x])) (first_occurrences xs)"
    by (simp add: conj_commute)
  show ?case
    using ih indexOf_at [of ps x xs]
    by (simp only: up zip_Cons_Cons filter.simps list.map first_occurrences.simps rest
          case_prod_conv fst_conv append_assoc append_Cons append_Nil split: if_splits)
       simp
qed

lemma filter_indexed_onlyUnique: "filter_indexed onlyUnique xs = first_occurrences xs"
  using filter_indexed_from [of "[]" xs] by (simp add: filter_indexed_def onlyUnique_def)

lemma set_first_occurrences: "set (first_occurrences xs) = set xs"
  by (induction xs) auto

lemma distinct_first_occurrences: "distinct (first_occurrences xs)"
  by (induction xs) (simp_all add: set_first_occurrences)

lemma first_occurrences_distinct: "distinct xs \<Longrightarrow> first_occurrences xs = xs"
proof (induction xs)
  case Nil
  show ?case by simp
next
  case (Cons x xs)
  then have "filter (\<lambda>y. y \<noteq> x) xs = xs" by (simp add: filter_id_conv) blast
  then show ?case using Cons by simp
qed

lemma first_occurrences_snoc:
  "g \<notin> set xs \<Longrightarrow> first_occurrences (xs @ [g]) = first_occurrences xs @ [g]"
  by (induction xs) auto


lemma getChunkNames_first_occurrences:
  "getChunkNames opts =
     first_occurrences
       (if ''global'' \<in> set (configured (chunkNames opts))
        then configured (chunkNames opts) else configured (chunkNames opts) @ [''global''])"
  by (cases "chunkNames opts")
     (simp_all add: getChunkNames_def configured_def filter_indexed_onlyUnique Let_def)

lemma getFieldListTypes_first_occurrences:
  "getFieldListTypes opts =
     first_occurrences
       (if ''default'' \<in> set (configured (fieldListTypes opts))
        then configured (fieldListTypes opts)
        else configured (fieldListTypes opts) @ [''default''])"
  by (cases "fieldListTypes opts")
     (simp_all add: getFieldListTypes_def configured_def filter_indexed_onlyUnique Let_def)

lemma filter_first_occurrences_snoc:
  "filter (\<lambda>c. c \<noteq> g) (first_occurrences (if g \<in> set xs then xs else xs @ [g]))
   = filter (\<lambda>c. c \<noteq> g) (first_occurrences xs)"
  by (simp add: first_occurrences_snoc)

text \<open>
  Claim C9. The effective chunk names are the configured list without repetitions, in
  the order of first appearance, with \<open>global\<close> appended when the configuration does not
  name it; the effective field list types are the configured list treated the same way
  with \<open>default\<close>. Both are duplicate-free and contain exactly the configured names and
  the added one. A chunk template is added for each effective chunk name other than
  \<open>global\<close>, in that order.
\<close>

theorem effective_names:
  "getChunkNames opts =
     (if ''global'' \<in> set (configured (chunkNames opts))
      then first_occurrences (configured (chunkNames opts))
      else first_occurrences (configured (chunkNames opts)) @ [''global''])
   \<and> distinct (getChunkNames opts)
   \<and> set (getChunkNames opts) = set (configured (chunkNames opts)) \<union> {''global''}
   \<and> getFieldListTypes opts =
     (if ''default'' \<in> set (configured (fieldListTypes opts))
      then first_occurrences (configured (fieldListTypes opts))
      else first_occurrences (configured (fieldListTypes opts)) @ [''default''])
   \<and> distinct (getFieldListTypes opts)
   \<and> set (getFieldListTypes opts) = set (configured (fieldListTypes opts)) \<union> {''default''}
   \<and> chunk_templates opts =
     map (\<lambda>chunkName. ''paragraphs-builder/chunk-'' @ chunkName @ ''.ts'')
       (filter (\<lambda>chunkName. chunkName \<noteq> ''global'')
          (first_occurrences (configured (chunkNames opts))))"
proof -
  have c1: "getChunkNames opts =
     (if ''global'' \<in> set (configured (chunkNames opts))
      then first_occurrences (configured (chunkNames opts))
      else first_occurrences (configured (chunkNames opts)) @ [''global''])"
    by (simp add: getChunkNames_first_occurrences first_occurrences_snoc)
  have c2: "distinct (getChunkNames opts)"
    by (simp only: getChunkNames_first_occurrences distinct_first_occurrences)
  have c3: "set (getChunkNames opts) = set (configured (chunkNames opts)) \<union> {''global''}"
    by (auto simp: getChunkNames_first_occurrences set_first_occurrences)
  have f1: "getFieldListTypes opts =
     (if ''default'' \<in> set (configured (fieldListTypes opts))
      then first_occurrences (configured (fieldListTypes opts))
      else first_occurrences (configured (fieldListTypes opts)) @ [''default''])"
    by (simp add: getFieldListTypes_first_occurrences first_occurrences_snoc)
  have f2: "distinct (getFieldListTypes opts)"
    by (simp only: getFieldListTypes_first_occurrences distinct_first_occurrences)
  have f3: "set (getFieldListTypes opts)
            = set (configured (fieldListTypes opts)) \<union> {''default''}"
    by (auto simp: getFieldListTypes_first_occurrences set_first_occurrences)
  have t: "chunk_templates opts =
     map (\<lambda>chunkName. ''paragraphs-builder/chunk-'' @ chunkName @ ''.ts'')
       (filter (\<lambda>chunkName. chunkName \<noteq> ''global'')
          (first_occurrences (configured (chunkNames opts))))"
    by (simp only: chunk_templates_def getChunkNames_first_occurrences
          filter_first_occurrences_snoc)
  show ?thesis using c1 c2 c3 f1 f2 f3 t by blast
qed

theorem effective_names_witness:
  "getChunkNames chunk_example = [''rare'', ''global'', ''heavy'']
   \<and> getFieldListTypes chunk_example = [''default'']
   \<and> chunk_templates chunk_example
       = [''paragraphs-builder/chunk-rare.ts'', ''paragraphs-builder/chunk-heavy.ts'']"
  using effective_names [of chunk_example]
  by (simp add: chunk_example_def configured_def)

lemma string_of_nat_digits: "set (string_of_nat n) \<subseteq> set ''0123456789''"
proof (induction n rule: string_of_nat.induct)
  case (1 n)
  have digit: "''0123456789'' ! k \<in> set ''0123456789''" if "k < 10" for k
    using that by (intro nth_mem) simp
  show ?case
  proof (cases "n < 10")
    case True
    then show ?thesis using digit [of n] by (subst string_of_nat.simps) simp
  next
    case False
    then show ?thesis
      using 1 digit [of "n mod 10"] by (subst string_of_nat.simps) simp
  qed
qed

lemma for_in_keys_not_proto: "''__proto__'' \<notin> set (for_in_keys xs)"
proof
  assume "''__proto__'' \<in> set (for_in_keys xs)"
  then obtain i where i: "string_of_nat i = ''__proto__''"
    by (auto simp: for_in_keys_def)
  have "set (string_of_nat i) \<subseteq> set ''0123456789''"
    by (rule string_of_nat_digits)
  then have "set ''__proto__'' \<subseteq> set ''0123456789''"
    by (simp only: i)
  then show False by simp
qed

lemma map_of_global_defaults:
  "''__proto__'' \<notin> set ks \<Longrightarrow>
   map_of (global_defaults ks g d) k =
     (if k \<in> set ks \<and> map_of g k \<noteq> None then map_of g k else map_of d k)"
proof (induction ks arbitrary: d)
  case Nil
  show ?case by simp
next
  case (Cons key ks)
  then have ih: "map_of (global_defaults ks g d') k =
     (if k \<in> set ks \<and> map_of g k \<noteq> None then map_of g k else map_of d' k)" for d'
    by simp
  have key: "key \<noteq> ''__proto__''" using Cons.prems by auto
  show ?case
    by (cases "map_of g key") (auto simp: ih assign_property_def key map_of_set_property)
qed

lemma global_defaults_none:
  "\<forall>k \<in> set ks. map_of g k = None \<Longrightarrow> global_defaults ks g d = d"
  by (induction ks arbitrary: d) simp_all

text \<open>
  Claim C5. With \<open>globalOptions\<close> an array, the loop over it runs over the index strings
  \<open>"0"\<close>, \<open>"1"\<close>, ...: an entry of the default options comes from
  \<open>globalOptionsDefaults\<close> exactly when its key is such an index string that
  \<open>globalOptionsDefaults\<close> defines, and is the paragraph's own default otherwise. When
  \<open>globalOptionsDefaults\<close> has no entry under an index string (its keys are option
  names), the default options are the paragraph's own and the computed options are the
  same as with no global defaults at all.
\<close>

theorem global_defaults_by_index:
  assumes "globalOptions config = Some keys"
    and "own_defaults (case options config of None \<Rightarrow> [] | Some opts \<Rightarrow> opts) [] = Inr own"
  shows "\<exists>d. defaultOptions g config = Inr d
           \<and> (\<forall>k. map_of d k =
                 (if k \<in> string_of_nat ` {0..<length keys} \<and> map_of g k \<noteq> None
                  then map_of g k else map_of own k))
           \<and> ((\<forall>i < length keys. map_of g (string_of_nat i) = None)
                \<longrightarrow> d = own \<and> defineParagraph_options g config item
                               = defineParagraph_options [] config item)"
proof -
  let ?d = "global_defaults (for_in_keys keys) g own"
  have d: "defaultOptions g config = Inr ?d"
    using assms by (simp add: defaultOptions_def)
  have s: "set (for_in_keys keys) = string_of_nat ` {0..<length keys}"
    by (simp add: for_in_keys_def)
  have m: "map_of ?d k =
             (if k \<in> string_of_nat ` {0..<length keys} \<and> map_of g k \<noteq> None
              then map_of g k else map_of own k)" for k
    using map_of_global_defaults [OF for_in_keys_not_proto, of keys g own k]
    by (simp only: s)
  have n: "?d = own \<and> defineParagraph_options g config item
                      = defineParagraph_options [] config item"
    if "\<forall>i < length keys. map_of g (string_of_nat i) = None"
  proof -
    have "\<forall>k \<in> set (for_in_keys keys). map_of g k = None"
      using that by (auto simp: s)
    then have "?d = own" by (rule global_defaults_none)
    moreover have "defaultOptions [] config = Inr (global_defaults (for_in_keys keys) [] own)"
      using assms by (simp add: defaultOptions_def)
    moreover have "global_defaults (for_in_keys keys) [] own = own"
      by (rule global_defaults_none) simp
    ultimately show ?thesis using d by (simp add: defineParagraph_options_def)
  qed
  show ?thesis using d m n by blast
qed

theorem global_defaults_by_index_witness:
  "globalOptions theme_config = Some [''theme'']
   \<and> own_defaults (case options theme_config of None \<Rightarrow> [] | Some opts \<Rightarrow> opts) []
       = Inr [(''size'', JLit (LString ''medium''))]
   \<and> defaultOptions [(''theme'', JLit (LString ''light''))] theme_config
       = Inr [(''size'', JLit (LString ''medium''))]
   \<and> defineParagraph_options [(''theme'', JLit (LString ''light''))] theme_config None
       = Inr [(''size'', JLit (LString ''medium''))]
   \<and> defaultOptions [(''0'', JLit (LString ''light''))] theme_config
       = Inr [(''0'', JLit (LString ''light'')), (''size'', JLit (LString ''medium''))]"
proof -
  have a: "globalOptions theme_config = Some [''theme'']"
    by (simp add: theme_config_def)
  have b: "own_defaults (case options theme_config of None \<Rightarrow> [] | Some opts \<Rightarrow> opts) []
       = Inr [(''size'', JLit (LString ''medium''))]"
    by (simp add: theme_config_def assign_property_def property_order)
  have z: "string_of_nat 0 = ''0''"
    by (simp add: string_of_nat.simps)
  have c: "defaultOptions [(''0'', JLit (LString ''light''))] theme_config
       = Inr [(''0'', JLit (LString ''light'')), (''size'', JLit (LString ''medium''))]"
    by (simp add: defaultOptions_def theme_config_def assign_property_def for_in_keys_def z
          property_order)
  obtain d where d: "defaultOptions [(''theme'', JLit (LString ''light''))] theme_config = Inr d"
    and n: "(\<forall>i < length [''theme'']. map_of [(''theme'', JLit (LString ''light''))]
                (string_of_nat i) = None)
            \<longrightarrow> d = [(''size'', JLit (LString ''medium''))]
                \<and> defineParagraph_options [(''theme'', JLit (LString ''light''))] theme_config None
                    = defineParagraph_options [] theme_config None"
    using global_defaults_by_index [OF a b, of "[(''theme'', JLit (LString ''light''))]" None]
    by blast
  have e: "defineParagraph_options [] theme_config None
           = Inr [(''size'', JLit (LString ''medium''))]"
    by (simp add: defineParagraph_options_def defaultOptions_def theme_config_def
          assign_property_def for_in_keys_def spread_def property_order)
  show ?thesis using a b c d n e by (simp add: z)
qed

text \<open>
  Claim C3 at a definition with falsy defaults. \<open>buildRuntimeDefinition\<close> tests
  \<open>optionDefinition.default\<close> for truth, so the defaults \<open>""\<close>, \<open>0\<close> and \<open>false\<close> are
  dropped and only \<open>size\<close> remains, while the loop of \<open>defineParagraph\<close>, which tests
  \<open>'default' in\<close>, keeps all four when it is given the definition as written.
\<close>

theorem falsy_defaults_dropped:
  "runtime_argument falsy_defaults_example
     = Inr ''{\"options\":{\"size\":{\"default\":\"medium\"}}}''
   \<and> own_defaults
        (Object_entries (the (map_of (estreeToObject falsy_defaults_example) ''options''))) []
     = Inr [(''title'', JLit (LString [])), (''count'', JLit (LNumber ''0'')),
            (''open'', JLit (LBoolean False)), (''size'', JLit (LString ''medium''))]"
  by (simp add: falsy_defaults_example_def runtime_argument_def buildRuntimeDefinition_def
        Object_fromEntries_def property_order falsy_def add_option_def assign_property_def quote_def
        escape_char_def estreeToObject.simps)

end
